theory Spec2Isabelle
  imports Main "HOL-Library.Word"
begin

unbundle bit_operations_syntax

section \<open>Common definitions (common.h)\<close>

text \<open>
  A byte is an \<open>unsigned char\<close>. \<open>size_type\<close> is \<open>std::uint32_t\<close> and \<open>id_type\<close> is
  \<open>std::uint64_t\<close>. The four exception types of the serializer are the first four
  constructors of \<open>error\<close>; \<open>Bad_cast\<close> is the \<open>std::bad_cast\<close> a failing
  \<open>dynamic_cast\<close> of a reference throws.
\<close>

type_synonym byte = "8 word"
type_synonym size_type = "32 word"
type_synonym id_type = "64 word"

datatype error =
    Out_of_range
  | Undeclared_polymorphic_type_error
  | Attempt_to_serialize_null_pointer_error
  | Polymorphic_type_mismatch_error
  | Bad_cast

section \<open>The polymorphic registry (registry.h)\<close>

text \<open>
  The registry holds two \<open>std::unordered_map\<close>s. A serialization method is a function
  pointer; the registry never looks inside it, so its type is a parameter here.
  \<open>unordered_map::emplace\<close> inserts only when the key is absent.
\<close>

record 'm registry =
  m_serialization_id_to_method :: "id_type \<rightharpoonup> 'm"
  m_type_information_to_serialization_id :: "string \<rightharpoonup> id_type"

definition empty_registry :: "'m registry" where
  "empty_registry =
     \<lparr>m_serialization_id_to_method = Map.empty,
      m_type_information_to_serialization_id = Map.empty\<rparr>"

definition emplace :: "('k \<rightharpoonup> 'v) \<Rightarrow> 'k \<Rightarrow> 'v \<Rightarrow> ('k \<rightharpoonup> 'v)" where
  "emplace m k v = (case m k of None \<Rightarrow> m(k \<mapsto> v) | Some _ \<Rightarrow> m)"

definition add :: "id_type \<Rightarrow> string \<Rightarrow> 'm \<Rightarrow> 'm registry \<Rightarrow> 'm registry" where
  "add ident type_information_string serialization_method r =
     \<lparr>m_serialization_id_to_method =
        emplace (m_serialization_id_to_method r) ident serialization_method,
      m_type_information_to_serialization_id =
        emplace (m_type_information_to_serialization_id r) type_information_string ident\<rparr>"

text \<open>
  \<open>register_types<make_type<Type, id>, ExtraTypes...>\<close> derives privately from
  \<open>register_types<ExtraTypes...>\<close>, so the base class constructor registers the extra
  types before this class's constructor registers its own pair.
\<close>

fun register_types :: "(string \<times> id_type \<times> 'm) list \<Rightarrow> 'm registry \<Rightarrow> 'm registry" where
  "register_types [] r = r"
| "register_types ((type_name, ident, method) # extra_types) r =
     add ident type_name method (register_types extra_types r)"

section \<open>The memory view input archive (archive.h)\<close>

text \<open>
  The archive borrows \<open>m_size\<close> bytes at \<open>m_input\<close> and keeps the read offset. Buffer sizes
  and offsets are \<open>std::size_t\<close>; they are natural numbers here, the sum
  \<open>sizeof(item) + m_offset\<close> being far below the range of \<open>std::size_t\<close> for every buffer
  that fits in memory. An item of fundamental type is its object representation, a list
  of \<open>sizeof(item)\<close> bytes. A load returns the exception thrown, if any, together with the
  item and the archive as the call leaves them.
\<close>

record memory_view_input_archive =
  m_input :: "byte list"
  m_size :: nat
  m_offset :: nat

definition new_memory_view_input_archive :: "byte list \<Rightarrow> memory_view_input_archive" where
  "new_memory_view_input_archive input = \<lparr>m_input = input, m_size = length input, m_offset = 0\<rparr>"

definition copy_n :: "byte list \<Rightarrow> nat \<Rightarrow> nat \<Rightarrow> byte list" where
  "copy_n input offset n = take n (drop offset input)"

definition view_serialize ::
  "nat \<Rightarrow> byte list \<Rightarrow> memory_view_input_archive
     \<Rightarrow> error option \<times> byte list \<times> memory_view_input_archive" where
  "view_serialize sizeof_item item a =
     (if m_size a < sizeof_item + m_offset a then (Some Out_of_range, item, a)
      else (None, copy_n (m_input a) (m_offset a) sizeof_item,
            a\<lparr>m_offset := m_offset a + sizeof_item\<rparr>))"

definition view_serialize_binary ::
  "size_type \<Rightarrow> byte list \<Rightarrow> memory_view_input_archive
     \<Rightarrow> error option \<times> byte list \<times> memory_view_input_archive" where
  "view_serialize_binary sz data a =
     (if m_size a < unat sz + m_offset a then (Some Out_of_range, data, a)
      else (None, copy_n (m_input a) (m_offset a) (unat sz) @ drop (unat sz) data,
            a\<lparr>m_offset := m_offset a + unat sz\<rparr>))"

definition remaining :: "memory_view_input_archive \<Rightarrow> nat" where
  "remaining a = length (drop (m_offset a) (m_input a))"

text \<open>
  What a load may change of the archive: the input and its size stay, the offset does not
  go back and stays within the input.
\<close>

definition frame :: "memory_view_input_archive \<Rightarrow> memory_view_input_archive \<Rightarrow> bool" where
  "frame a a' = (m_input a' = m_input a \<and> m_size a' = m_size a \<and> m_offset a \<le> m_offset a'
     \<and> (m_offset a \<le> m_size a \<longrightarrow> m_offset a' \<le> m_size a))"

section \<open>Object representations\<close>

text \<open>
  The archives copy the object representation of an item, \<open>sizeof(item)\<close> raw bytes. For
  the unsigned integers the library itself writes and reads (\<open>size_type\<close> and \<open>id_type\<close>)
  the object representation is fixed by the byte order of the host.
\<close>

datatype endian = Little_endian | Big_endian

primrec little_endian_bytes :: "nat \<Rightarrow> 'a::len word \<Rightarrow> byte list" where
  "little_endian_bytes 0 w = []"
| "little_endian_bytes (Suc n) w = ucast w # little_endian_bytes n (drop_bit 8 w)"

primrec little_endian_value :: "byte list \<Rightarrow> 'a::len word" where
  "little_endian_value [] = 0"
| "little_endian_value (b # bs) = ucast b OR push_bit 8 (little_endian_value bs)"

definition object_representation :: "endian \<Rightarrow> nat \<Rightarrow> 'a::len word \<Rightarrow> byte list" where
  "object_representation e n w =
     (case e of Little_endian \<Rightarrow> little_endian_bytes n w
      | Big_endian \<Rightarrow> rev (little_endian_bytes n w))"

definition value_of_representation :: "endian \<Rightarrow> byte list \<Rightarrow> 'a::len word" where
  "value_of_representation e bs =
     (case e of Little_endian \<Rightarrow> little_endian_value bs
      | Big_endian \<Rightarrow> little_endian_value (rev bs))"

section \<open>The identifier of a name (registry.h, common.h)\<close>

text \<open>
  \<open>swap_byte_order\<close> is overloaded for the four unsigned widths; \<open>rotate_left\<close> is used at
  \<open>std::uint32_t\<close>. \<open>make_id\<close> takes a string literal \<open>name\<close> of \<open>size\<close> characters, the
  terminating zero included; here \<open>name\<close> is the string without the terminator, so
  \<open>size = length name + 1\<close>. \<open>std::uint32_t(name[i])\<close> converts a \<open>char\<close>, which is signed on
  the usual targets. The loops over \<open>i\<close> and \<open>j\<close> are folds over the index ranges.
\<close>

definition swap_byte_order8 :: "8 word \<Rightarrow> 8 word" where
  "swap_byte_order8 v = v"

definition swap_byte_order16 :: "16 word \<Rightarrow> 16 word" where
  "swap_byte_order16 v =
     push_bit 8 (ucast (swap_byte_order8 (ucast v)))
     OR ucast (swap_byte_order8 (ucast (drop_bit 8 v)))"

definition swap_byte_order32 :: "32 word \<Rightarrow> 32 word" where
  "swap_byte_order32 v =
     push_bit 16 (ucast (swap_byte_order16 (ucast v)))
     OR ucast (swap_byte_order16 (ucast (drop_bit 16 v)))"

definition swap_byte_order64 :: "64 word \<Rightarrow> 64 word" where
  "swap_byte_order64 v =
     push_bit 32 (ucast (swap_byte_order32 (ucast v)))
     OR ucast (swap_byte_order32 (ucast (drop_bit 32 v)))"

definition rotate_left :: "32 word \<Rightarrow> nat \<Rightarrow> 32 word" where
  "rotate_left number count = push_bit count number OR drop_bit (32 - count) number"

definition uint32_of_char :: "char \<Rightarrow> 32 word" where
  "uint32_of_char c = scast (of_char c :: 8 word)"

definition preprocess :: "string \<Rightarrow> 32 word list" where
  "preprocess name =
     (let sz = length name + 1;
          message_size = (of_nat ((sz - 1) * 8) :: 64 word);
          aligned_message_size = (((sz + 8) + 63) div 64) * 64;
          words = aligned_message_size div 4;
          m0 = replicate words (0 :: 32 word);
          m1 = foldl (\<lambda>m i. m[i div 4 := m ! (i div 4) OR
                  swap_byte_order32 (push_bit ((4 - 1 - (i mod 4)) * 8) (uint32_of_char (name ! i)))])
                 m0 [0..<sz - 1];
          m2 = m1[(sz - 1) div 4 := m1 ! ((sz - 1) div 4) OR
                  swap_byte_order32 (push_bit ((4 - 1 - ((sz - 1) mod 4)) * 8) 0x80)];
          m3 = m2[words - 2 := swap_byte_order32 (ucast (drop_bit 32 message_size))]
      in m3[words - 1 := swap_byte_order32 (ucast message_size)])"

definition extend_words :: "32 word list \<Rightarrow> 32 word list" where
  "extend_words w16 =
     foldl (\<lambda>w j. w[j := swap_byte_order32 (rotate_left (swap_byte_order32
                (w ! (j - 3) XOR w ! (j - 8) XOR w ! (j - 14) XOR w ! (j - 16))) 1)])
       (w16 @ replicate 64 0) [16..<80]"

type_synonym sha_state = "32 word \<times> 32 word \<times> 32 word \<times> 32 word \<times> 32 word"

definition round_step :: "32 word list \<Rightarrow> sha_state \<Rightarrow> nat \<Rightarrow> sha_state" where
  "round_step w s j =
     (case s of (a, b, c, d, e) \<Rightarrow>
        (let (f, k) =
               (if j \<le> 19 then ((b AND c) OR ((NOT b) AND d), 0x5A827999)
                else if j \<le> 39 then (b XOR c XOR d, 0x6ED9EBA1)
                else if j \<le> 59 then ((b AND c) OR (b AND d) OR (c AND d), 0x8F1BBCDC)
                else (b XOR c XOR d, 0xCA62C1D6));
             temp = rotate_left a 5 + f + e + k + swap_byte_order32 (w ! j)
         in (temp, a, rotate_left b 30, c, d)))"

definition process_chunk :: "32 word list \<Rightarrow> sha_state \<Rightarrow> nat \<Rightarrow> sha_state" where
  "process_chunk preprocessed_message h i =
     (case h of (h0, h1, h2, h3, h4) \<Rightarrow>
        (let w = extend_words (take 16 (drop i preprocessed_message))
         in case foldl (round_step w) (h0, h1, h2, h3, h4) [0..<80] of
              (a, b, c, d, e) \<Rightarrow> (h0 + a, h1 + b, h2 + c, h3 + d, h4 + e)))"

definition make_id :: "string \<Rightarrow> id_type" where
  "make_id name =
     (let preprocessed_message = preprocess name
      in case foldl (process_chunk preprocessed_message)
                (0x67452301, 0xEFCDAB89, 0x98BADCFE, 0x10325476, 0xC3D2E1F0)
                (map (\<lambda>c. 16 * c) [0..<length preprocessed_message div 16]) of
           (h0, h1, h2, h3, h4) \<Rightarrow>
             swap_byte_order64 (push_bit 32 (ucast h0) OR ucast h1))"

subsection \<open>SHA-1 as the specification describes it\<close>

text \<open>
  Modelled from the spec's words, for comparison with \<open>make_id\<close>: the message is padded
  with the byte \<open>0x80\<close>, zero bytes and the length in bits as a 64-bit big-endian number to a
  multiple of 64 bytes; every 512-bit block, read as sixteen big-endian words, goes
  through the SHA-1 compression function with the four round constants, the four
  f-functions and the initial state of the specification; the digest is the five state
  words in big-endian order.
\<close>

definition spec_padding :: "byte list \<Rightarrow> byte list" where
  "spec_padding message =
     message @ [0x80] @ replicate ((64 - (length message + 9) mod 64) mod 64) 0
     @ rev (little_endian_bytes 8 (of_nat (8 * length message) :: 64 word))"

definition big_endian_word :: "byte list \<Rightarrow> 32 word" where
  "big_endian_word bs = foldl (\<lambda>w b. push_bit 8 w OR ucast b) 0 bs"

definition spec_words :: "byte list \<Rightarrow> 32 word list" where
  "spec_words bs = map (\<lambda>k. big_endian_word (take 4 (drop (4 * k) bs))) [0..<length bs div 4]"

definition spec_schedule :: "32 word list \<Rightarrow> 32 word list" where
  "spec_schedule block =
     foldl (\<lambda>w t. w @ [word_rotl 1 (w ! (t - 3) XOR w ! (t - 8) XOR w ! (t - 14) XOR w ! (t - 16))])
       block [16..<80]"

definition spec_f :: "nat \<Rightarrow> 32 word \<Rightarrow> 32 word \<Rightarrow> 32 word \<Rightarrow> 32 word" where
  "spec_f t b c d =
     (if t < 20 then (b AND c) OR (NOT b AND d)
      else if t < 40 then b XOR c XOR d
      else if t < 60 then (b AND c) OR (b AND d) OR (c AND d)
      else b XOR c XOR d)"

definition spec_k :: "nat \<Rightarrow> 32 word" where
  "spec_k t =
     (if t < 20 then 0x5A827999 else if t < 40 then 0x6ED9EBA1
      else if t < 60 then 0x8F1BBCDC else 0xCA62C1D6)"

definition spec_round :: "32 word list \<Rightarrow> sha_state \<Rightarrow> nat \<Rightarrow> sha_state" where
  "spec_round w s t =
     (case s of (a, b, c, d, e) \<Rightarrow>
        (word_rotl 5 a + spec_f t b c d + e + spec_k t + w ! t, a, word_rotl 30 b, c, d))"

definition spec_compress :: "sha_state \<Rightarrow> 32 word list \<Rightarrow> sha_state" where
  "spec_compress h block =
     (case h of (h0, h1, h2, h3, h4) \<Rightarrow>
        (case foldl (spec_round (spec_schedule block)) h [0..<80] of
           (a, b, c, d, e) \<Rightarrow> (h0 + a, h1 + b, h2 + c, h3 + d, h4 + e)))"

definition spec_blocks :: "32 word list \<Rightarrow> 32 word list list" where
  "spec_blocks ws = map (\<lambda>i. take 16 (drop (16 * i) ws)) [0..<length ws div 16]"

definition spec_sha1 :: "byte list \<Rightarrow> sha_state" where
  "spec_sha1 message =
     foldl spec_compress (0x67452301, 0xEFCDAB89, 0x98BADCFE, 0x10325476, 0xC3D2E1F0)
       (spec_blocks (spec_words (spec_padding message)))"

definition spec_digest :: "byte list \<Rightarrow> byte list" where
  "spec_digest message =
     (case spec_sha1 message of
        (h0, h1, h2, h3, h4) \<Rightarrow>
          concat (map (\<lambda>h. rev (little_endian_bytes 4 h)) [h0, h1, h2, h3, h4]))"

definition spec_first_64_bits :: "byte list \<Rightarrow> 64 word" where
  "spec_first_64_bits message =
     (case spec_sha1 message of (h0, h1, h2, h3, h4) \<Rightarrow> push_bit 32 (ucast h0) OR ucast h1)"

definition bytes_of_name :: "string \<Rightarrow> byte list" where
  "bytes_of_name name = map of_char name"

definition ascii :: "string \<Rightarrow> bool" where
  "ascii name = (\<forall>c \<in> set name. (of_char c :: nat) < 128)"

text \<open>The words of a byte buffer as the host would read them, four bytes each, least significant first.\<close>

definition little_endian_words :: "byte list \<Rightarrow> 32 word list" where
  "little_endian_words bs =
     map (\<lambda>k. little_endian_value (take 4 (drop (4 * k) bs))) [0..<length bs div 4]"

section \<open>Types and values seen by the dispatcher\<close>

text \<open>
  The dispatcher is a set of overloaded templates selected by the capabilities of the
  item's type. A type is described by the capabilities the overloads test:
  \<^item> \<open>Fundamental n\<close>, \<open>Enumeration n\<close>: a scalar of \<open>n\<close> bytes (for an enumeration, the size of
    its underlying type);
  \<^item> \<open>Resizable ra dm t\<close>: a container with \<open>size\<close>, \<open>begin\<close>, \<open>end\<close> and \<open>resize\<close> and value
    type \<open>t\<close>; \<open>ra\<close> says that its iterator is random access, \<open>dm\<close> that it has a \<open>data()\<close>
    member function;
  \<^item> \<open>Associative t\<close>: a container with \<open>key_type\<close> and \<open>insert\<close> and no \<open>resize\<close>;
  \<^item> \<open>Array n t\<close>: \<open>t[n]\<close> or \<open>std::array<t, n>\<close>; \<open>Pair\<close>, \<open>Tuple\<close>: \<open>std::pair\<close>, \<open>std::tuple\<close>;
  \<^item> \<open>Class ts\<close>: a class whose \<open>serialize\<close> hook passes its members, of types \<open>ts\<close>, to the
    archive in this order;
  \<^item> \<open>Owning k t\<close>: \<open>std::unique_ptr<t>\<close> or \<open>std::shared_ptr<t>\<close>, \<open>t\<close> not derived from
    \<open>polymorphic\<close>; \<open>Owning_polymorphic k c\<close>: the same for the class named \<open>c\<close>, derived
    from \<open>polymorphic\<close>; \<open>Polymorphic_wrapper c\<close>: \<open>polymorphic_wrapper<c>\<close>.
  A value is the object representation of a scalar, the items of a container, array,
  pair, tuple or class object, a handle that holds nothing or one object, or an object of
  a polymorphic class with its dynamic type and its members.
\<close>

type_synonym cname = string

datatype handle_kind = Unique_ptr | Shared_ptr

datatype ty =
    Fundamental nat
  | Enumeration nat
  | Resizable bool bool ty
  | Associative ty
  | Array nat ty
  | Pair ty ty
  | Tuple "ty list"
  | Class "ty list"
  | Owning handle_kind ty
  | Owning_polymorphic handle_kind cname
  | Polymorphic_wrapper cname

datatype val =
    Scalar "byte list"
  | Items "val list"
  | Handle "val option"
  | Poly cname "val list"

text \<open>
  A class derived from \<open>polymorphic\<close> is declared with the classes a \<open>dynamic_cast\<close> can
  convert it to (its public bases) and the member types its \<open>serialize\<close> hook passes to
  the archive. A hook of a derived class first calls the hook of its base, as
  \<open>student::serialize\<close> does, so the members of a base come first.

  The environment of a run: the byte order of the host, the declared classes, the
  registries of the two built in archives (a serialization method made by
  \<open>make_serialization_method<Archive, Type>\<close> is known by the name of \<open>Type\<close>), and the
  \<open>insert\<close> member function of the associative containers, which belongs to the
  container library.
\<close>

record class_decl =
  bases :: "cname list"
  members :: "ty list"

record env =
  host :: endian
  classes :: "cname \<Rightarrow> class_decl"
  saving_registry :: "cname registry"
  loading_registry :: "cname registry"
  container_insert :: "val \<Rightarrow> val list \<Rightarrow> val list"

definition is_fundamental :: "ty \<Rightarrow> bool" where
  "is_fundamental t = (case t of Fundamental n \<Rightarrow> True | _ \<Rightarrow> False)"

definition is_enum :: "ty \<Rightarrow> bool" where
  "is_enum t = (case t of Enumeration n \<Rightarrow> True | _ \<Rightarrow> False)"

definition is_class :: "ty \<Rightarrow> bool" where
  "is_class t = (case t of Fundamental n \<Rightarrow> False | Enumeration n \<Rightarrow> False | _ \<Rightarrow> True)"

definition sizeof :: "ty \<Rightarrow> nat" where
  "sizeof t = (case t of Fundamental n \<Rightarrow> n | Enumeration n \<Rightarrow> n | _ \<Rightarrow> 0)"

definition dynamic_cast :: "env \<Rightarrow> cname \<Rightarrow> cname \<Rightarrow> bool" where
  "dynamic_cast env dynamic_type target = (dynamic_type = target \<or> target \<in> set (bases (classes env dynamic_type)))"

fun default_val :: "ty \<Rightarrow> val" where
  "default_val (Fundamental n) = Scalar (replicate n 0)"
| "default_val (Enumeration n) = Scalar (replicate n 0)"
| "default_val (Resizable ra dm t) = Items []"
| "default_val (Associative t) = Items []"
| "default_val (Array n t) = Items (replicate n (default_val t))"
| "default_val (Pair t1 t2) = Items [default_val t1, default_val t2]"
| "default_val (Tuple ts) = Items (map default_val ts)"
| "default_val (Class ts) = Items (map default_val ts)"
| "default_val (Owning k t) = Handle None"
| "default_val (Owning_polymorphic k c) = Handle None"
| "default_val (Polymorphic_wrapper c) = Handle None"

definition resize :: "nat \<Rightarrow> 'a \<Rightarrow> 'a list \<Rightarrow> 'a list" where
  "resize n d xs = take n xs @ replicate (n - length xs) d"

text \<open>
  The overloads of \<open>serialize\<close> for resizable containers are guarded by \<open>enable_if\<close>. The
  viable overloads for a container are listed in the order of the source; a call
  compiles when exactly one is viable.
\<close>

datatype path = Per_element | Contiguous

definition viable_loading :: "bool \<Rightarrow> bool \<Rightarrow> ty \<Rightarrow> path list" where
  "viable_loading ra dm t =
     (if is_class t \<or> \<not> ra then [Per_element] else [])
     @ (if dm \<and> (is_fundamental t \<or> is_enum t) \<and> ra then [Contiguous] else [])"

definition viable_saving :: "bool \<Rightarrow> bool \<Rightarrow> ty \<Rightarrow> path list" where
  "viable_saving ra dm t =
     (if is_class t \<or> \<not> ra \<or> \<not> dm then [Per_element] else [])
     @ (if dm \<and> (is_fundamental t \<or> is_enum t) \<and> ra then [Contiguous] else [])"

definition overload_resolution :: "path list \<Rightarrow> path option" where
  "overload_resolution ps = (case ps of [p] \<Rightarrow> Some p | _ \<Rightarrow> None)"

section \<open>The memory output archive (archive.h)\<close>

text \<open>
  \<open>lazy_vector_memory_output_archive\<close> writes into the caller's vector \<open>m_output\<close> and keeps
  the number of bytes in use (\<open>m_size\<close> in the source, \<open>m_used\<close> here, since the input archive
  has a member of the same name).
\<close>

record lazy_vector_memory_output_archive =
  m_output :: "byte list"
  m_used :: nat

definition new_memory_output_archive :: "byte list \<Rightarrow> lazy_vector_memory_output_archive" where
  "new_memory_output_archive output = \<lparr>m_output = output, m_used = length output\<rparr>"

text \<open>
  \<open>std::copy_n\<close> reads \<open>sizeof_item\<close> bytes at the address of the item. The object
  representation of an item has that many bytes; would it be shorter, the bytes behind it
  read as zero here.
\<close>

definition object_bytes :: "nat \<Rightarrow> byte list \<Rightarrow> byte list" where
  "object_bytes sizeof_item item = take sizeof_item item @ replicate (sizeof_item - length item) 0"

definition lazy_serialize ::
  "nat \<Rightarrow> byte list \<Rightarrow> lazy_vector_memory_output_archive \<Rightarrow> lazy_vector_memory_output_archive" where
  "lazy_serialize sizeof_item item a =
     (let output = (if m_used a + sizeof_item > length (m_output a)
                    then resize ((m_used a + sizeof_item) * 3 div 2) 0 (m_output a)
                    else m_output a)
      in \<lparr>m_output = take (m_used a) output @ object_bytes sizeof_item item
                       @ drop (m_used a + sizeof_item) output,
          m_used = m_used a + sizeof_item\<rparr>)"

definition lazy_serialize_binary ::
  "size_type \<Rightarrow> byte list \<Rightarrow> lazy_vector_memory_output_archive \<Rightarrow> lazy_vector_memory_output_archive" where
  "lazy_serialize_binary sz data a = lazy_serialize (unat sz) data a"

text \<open>The bytes in use: the vector as \<open>fit_vector\<close> leaves it.\<close>

definition written :: "lazy_vector_memory_output_archive \<Rightarrow> byte list" where
  "written a = resize (m_used a) 0 (m_output a)"

definition fit_vector :: "lazy_vector_memory_output_archive \<Rightarrow> lazy_vector_memory_output_archive" where
  "fit_vector a = a\<lparr>m_output := resize (m_used a) 0 (m_output a)\<rparr>"

text \<open>The error raised at compile time when no overload, or a \<open>static_assert\<close>, rejects an item.\<close>

datatype failure = Thrown error | No_viable_overload

section \<open>The dispatcher, saving\<close>

definition bytes_of :: "val \<Rightarrow> byte list" where
  "bytes_of v = (case v of Scalar bs \<Rightarrow> bs | _ \<Rightarrow> [])"

definition size_in_bytes :: "size_type \<Rightarrow> nat \<Rightarrow> size_type" where
  "size_in_bytes m_count sizeof_item = m_count * of_nat sizeof_item"

fun serialize_item_saving ::
    "env \<Rightarrow> ty \<Rightarrow> val \<Rightarrow> lazy_vector_memory_output_archive
       \<Rightarrow> failure option \<times> lazy_vector_memory_output_archive"
  and serialize_items_saving ::
    "env \<Rightarrow> ty list \<Rightarrow> val list \<Rightarrow> lazy_vector_memory_output_archive
       \<Rightarrow> failure option \<times> lazy_vector_memory_output_archive"
  and serialize_each_saving ::
    "env \<Rightarrow> ty \<Rightarrow> val list \<Rightarrow> lazy_vector_memory_output_archive
       \<Rightarrow> failure option \<times> lazy_vector_memory_output_archive"
  and registry_serialize_saving ::
    "env \<Rightarrow> val \<Rightarrow> lazy_vector_memory_output_archive
       \<Rightarrow> failure option \<times> lazy_vector_memory_output_archive"
where
  "serialize_item_saving env (Fundamental n) v a =
     (case v of Scalar bs \<Rightarrow> (None, lazy_serialize n bs a)
      | _ \<Rightarrow> (Some No_viable_overload, a))"
| "serialize_item_saving env (Enumeration n) v a =
     (case v of Scalar bs \<Rightarrow> (None, lazy_serialize n bs a)
      | _ \<Rightarrow> (Some No_viable_overload, a))"
| "serialize_item_saving env (Resizable ra dm t) v a =
     (case v of
        Items container \<Rightarrow>
          (case overload_resolution (viable_saving ra dm t) of
             None \<Rightarrow> (Some No_viable_overload, a)
           | Some Per_element \<Rightarrow>
               serialize_each_saving env t container
                 (lazy_serialize 4
                    (object_representation (host env) 4 (of_nat (length container) :: size_type)) a)
           | Some Contiguous \<Rightarrow>
               (let sz = (of_nat (length container) :: size_type);
                    a' = lazy_serialize 4 (object_representation (host env) 4 sz) a
                in if sz = 0 then (None, a')
                   else (None, lazy_serialize_binary (size_in_bytes sz (sizeof t))
                                 (concat (map bytes_of container)) a')))
      | _ \<Rightarrow> (Some No_viable_overload, a))"
| "serialize_item_saving env (Associative t) v a =
     (case v of
        Items container \<Rightarrow>
          serialize_each_saving env t container
            (lazy_serialize 4
               (object_representation (host env) 4 (of_nat (length container) :: size_type)) a)
      | _ \<Rightarrow> (Some No_viable_overload, a))"
| "serialize_item_saving env (Array n t) v a =
     (case v of Items array \<Rightarrow> serialize_each_saving env t array a
      | _ \<Rightarrow> (Some No_viable_overload, a))"
| "serialize_item_saving env (Pair t1 t2) v a =
     (case v of Items pair \<Rightarrow> serialize_items_saving env [t1, t2] pair a
      | _ \<Rightarrow> (Some No_viable_overload, a))"
| "serialize_item_saving env (Tuple ts) v a =
     (case v of Items tuple \<Rightarrow> serialize_items_saving env ts tuple a
      | _ \<Rightarrow> (Some No_viable_overload, a))"
| "serialize_item_saving env (Class ts) v a =
     (case v of Items self \<Rightarrow> serialize_items_saving env ts self a
      | _ \<Rightarrow> (Some No_viable_overload, a))"
| "serialize_item_saving env (Owning k t) v a =
     (case v of
        Handle None \<Rightarrow> (Some (Thrown Attempt_to_serialize_null_pointer_error), a)
      | Handle (Some object) \<Rightarrow> serialize_item_saving env t object a
      | _ \<Rightarrow> (Some No_viable_overload, a))"
| "serialize_item_saving env (Owning_polymorphic k c) v a =
     (case v of
        Handle None \<Rightarrow> (Some (Thrown Attempt_to_serialize_null_pointer_error), a)
      | Handle (Some object) \<Rightarrow> registry_serialize_saving env object a
      | _ \<Rightarrow> (Some No_viable_overload, a))"
| "serialize_item_saving env (Polymorphic_wrapper c) v a =
     registry_serialize_saving env v a"
| "serialize_items_saving env [] vs a = (None, a)"
| "serialize_items_saving env (t # ts) [] a = (Some No_viable_overload, a)"
| "serialize_items_saving env (t # ts) (first # items) a =
     (case serialize_item_saving env t first a of
        (Some e, a') \<Rightarrow> (Some e, a')
      | (None, a') \<Rightarrow> serialize_items_saving env ts items a')"
| "serialize_each_saving env t [] a = (None, a)"
| "serialize_each_saving env t (item # container) a =
     (case serialize_item_saving env t item a of
        (Some e, a') \<Rightarrow> (Some e, a')
      | (None, a') \<Rightarrow> serialize_each_saving env t container a')"
| "registry_serialize_saving env v a =
     (case v of
        Poly dynamic_type self \<Rightarrow>
          (case m_type_information_to_serialization_id (saving_registry env) dynamic_type of
             None \<Rightarrow> (Some (Thrown Undeclared_polymorphic_type_error), a)
           | Some ident \<Rightarrow>
               (case m_serialization_id_to_method (saving_registry env) ident of
                  None \<Rightarrow> (Some (Thrown Undeclared_polymorphic_type_error), a)
                | Some method_type \<Rightarrow>
                    (let a' = lazy_serialize 8 (object_representation (host env) 8 ident) a
                     in if dynamic_cast env dynamic_type method_type
                        then serialize_items_saving env (members (classes env method_type)) self a'
                        else (Some (Thrown Bad_cast), a'))))
      | _ \<Rightarrow> (Some No_viable_overload, a))"

definition memory_output_archive_call ::
  "env \<Rightarrow> ty list \<Rightarrow> val list \<Rightarrow> lazy_vector_memory_output_archive
     \<Rightarrow> failure option \<times> lazy_vector_memory_output_archive" where
  "memory_output_archive_call env ts items a =
     (case serialize_items_saving env ts items a of (e, a') \<Rightarrow> (e, fit_vector a'))"

section \<open>The dispatcher, loading\<close>

text \<open>
  A load works on the item it is given, as the source does through a reference, and
  returns the item and the archive as they are when the call returns or throws. A
  polymorphic load calls the serialization method found in the registry, which may load
  further polymorphic handles; \<open>fuel\<close> bounds the depth of these calls, and a load that
  exceeds it has no result.
\<close>

definition items_of :: "val \<Rightarrow> val list" where
  "items_of v = (case v of Items xs \<Rightarrow> xs | _ \<Rightarrow> [])"

primrec split_items :: "nat \<Rightarrow> nat \<Rightarrow> byte list \<Rightarrow> val list" where
  "split_items sizeof_item 0 data = []"
| "split_items sizeof_item (Suc n) data =
     Scalar (take sizeof_item data) # split_items sizeof_item n (drop sizeof_item data)"

definition load_size ::
  "env \<Rightarrow> memory_view_input_archive \<Rightarrow> error option \<times> size_type \<times> memory_view_input_archive" where
  "load_size env a =
     (case view_serialize 4 (object_representation (host env) 4 (0 :: size_type)) a of
        (e, bs, a') \<Rightarrow> (e, value_of_representation (host env) bs, a'))"

text \<open>
  The end of the polymorphic load of a handle: the \<open>dynamic_cast\<close> to the type of the
  caller's handle, then \<open>reset\<close> and \<open>release\<close>. The third component lists the objects
  deleted, by \<open>reset\<close> or by the destructor of \<open>loaded_type\<close>.
\<close>

definition downcast_and_transfer ::
  "env \<Rightarrow> cname \<Rightarrow> val \<Rightarrow> val option \<Rightarrow> failure option \<times> val \<times> val list" where
  "downcast_and_transfer env c object loaded_type =
     (case loaded_type of
        Some (Poly dynamic_type self) \<Rightarrow>
          if dynamic_cast env dynamic_type c
          then (None, Handle loaded_type, (case object of Handle (Some old) \<Rightarrow> [old] | _ \<Rightarrow> []))
          else (Some (Thrown Polymorphic_type_mismatch_error), object, [Poly dynamic_type self])
      | Some other \<Rightarrow> (Some (Thrown Polymorphic_type_mismatch_error), object, [other])
      | None \<Rightarrow> (Some (Thrown Polymorphic_type_mismatch_error), object, []))"

function (sequential) serialize_item_loading ::
    "env \<Rightarrow> nat \<Rightarrow> ty \<Rightarrow> val \<Rightarrow> memory_view_input_archive
       \<Rightarrow> (failure option \<times> val \<times> memory_view_input_archive) option"
  and serialize_items_loading ::
    "env \<Rightarrow> nat \<Rightarrow> ty list \<Rightarrow> val list \<Rightarrow> memory_view_input_archive
       \<Rightarrow> (failure option \<times> val list \<times> memory_view_input_archive) option"
  and serialize_each_loading ::
    "env \<Rightarrow> nat \<Rightarrow> ty \<Rightarrow> val list \<Rightarrow> memory_view_input_archive
       \<Rightarrow> (failure option \<times> val list \<times> memory_view_input_archive) option"
  and insert_each_loading ::
    "env \<Rightarrow> nat \<Rightarrow> ty \<Rightarrow> nat \<Rightarrow> val list \<Rightarrow> memory_view_input_archive
       \<Rightarrow> (failure option \<times> val list \<times> memory_view_input_archive) option"
  and registry_serialize_loading ::
    "env \<Rightarrow> nat \<Rightarrow> val option \<Rightarrow> memory_view_input_archive
       \<Rightarrow> (failure option \<times> val option \<times> memory_view_input_archive) option"
where
  "serialize_item_loading env fuel (Fundamental n) item a =
     (case view_serialize n (bytes_of item) a of
        (Some e, bs, a') \<Rightarrow> Some (Some (Thrown e), item, a')
      | (None, bs, a') \<Rightarrow> Some (None, Scalar bs, a'))"
| "serialize_item_loading env fuel (Enumeration n) item a =
     (case view_serialize n (bytes_of item) a of
        (Some e, bs, a') \<Rightarrow> Some (Some (Thrown e), item, a')
      | (None, bs, a') \<Rightarrow> Some (None, Scalar bs, a'))"
| "serialize_item_loading env fuel (Resizable ra dm t) item a =
     (case overload_resolution (viable_loading ra dm t) of
        None \<Rightarrow> Some (Some No_viable_overload, item, a)
      | Some Per_element \<Rightarrow>
          (case load_size env a of
             (Some e, sz, a') \<Rightarrow> Some (Some (Thrown e), item, a')
           | (None, sz, a') \<Rightarrow>
               (case serialize_each_loading env fuel t
                       (resize (unat sz) (default_val t) (items_of item)) a' of
                  None \<Rightarrow> None
                | Some (e, container, a'') \<Rightarrow> Some (e, Items container, a'')))
      | Some Contiguous \<Rightarrow>
          (case load_size env a of
             (Some e, sz, a') \<Rightarrow> Some (Some (Thrown e), item, a')
           | (None, sz, a') \<Rightarrow>
               (let container = resize (unat sz) (default_val t) (items_of item)
                in if sz = 0 then Some (None, Items container, a')
                   else (case view_serialize_binary
                                (size_in_bytes (of_nat (length container)) (sizeof t))
                                (concat (map bytes_of container)) a' of
                           (Some e, data, a'') \<Rightarrow> Some (Some (Thrown e), Items container, a'')
                         | (None, data, a'') \<Rightarrow>
                             Some (None, Items (split_items (sizeof t) (length container) data),
                                   a'')))))"
| "serialize_item_loading env fuel (Associative t) item a =
     (case load_size env a of
        (Some e, sz, a') \<Rightarrow> Some (Some (Thrown e), item, a')
      | (None, sz, a') \<Rightarrow>
          (case insert_each_loading env fuel t (unat sz) (items_of item) a' of
             None \<Rightarrow> None
           | Some (e, container, a'') \<Rightarrow> Some (e, Items container, a'')))"
| "serialize_item_loading env fuel (Array n t) item a =
     (case serialize_each_loading env fuel t (items_of item) a of
        None \<Rightarrow> None
      | Some (e, array, a') \<Rightarrow> Some (e, Items array, a'))"
| "serialize_item_loading env fuel (Pair t1 t2) item a =
     (case items_of item of
        [first, second] \<Rightarrow>
          (case serialize_item_loading env fuel t1 first a of
             None \<Rightarrow> None
           | Some (Some e, first', a') \<Rightarrow> Some (Some e, Items [first', second], a')
           | Some (None, first', a') \<Rightarrow>
               (case serialize_item_loading env fuel t2 second a' of
                  None \<Rightarrow> None
                | Some (e, second', a'') \<Rightarrow> Some (e, Items [first', second'], a'')))
      | _ \<Rightarrow> Some (Some No_viable_overload, item, a))"
| "serialize_item_loading env fuel (Tuple ts) item a =
     (case serialize_items_loading env fuel ts (items_of item) a of
        None \<Rightarrow> None
      | Some (e, tuple, a') \<Rightarrow> Some (e, Items tuple, a'))"
| "serialize_item_loading env fuel (Class ts) item a =
     (case serialize_items_loading env fuel ts (items_of item) a of
        None \<Rightarrow> None
      | Some (e, self, a') \<Rightarrow> Some (e, Items self, a'))"
| "serialize_item_loading env fuel (Owning k t) item a =
     (case serialize_item_loading env fuel t (default_val t) a of
        None \<Rightarrow> None
      | Some (Some e, loaded_object, a') \<Rightarrow> Some (Some e, item, a')
      | Some (None, loaded_object, a') \<Rightarrow> Some (None, Handle (Some loaded_object), a'))"
| "serialize_item_loading env fuel (Owning_polymorphic k c) item a =
     (case registry_serialize_loading env fuel None a of
        None \<Rightarrow> None
      | Some (Some e, loaded_type, a') \<Rightarrow> Some (Some e, item, a')
      | Some (None, loaded_type, a') \<Rightarrow>
          (case downcast_and_transfer env c item loaded_type of
             (e, item', deleted) \<Rightarrow> Some (e, item', a')))"
| "serialize_item_loading env fuel (Polymorphic_wrapper c) item a =
     Some (Some No_viable_overload, item, a)"
| "serialize_items_loading env fuel [] items a = Some (None, items, a)"
| "serialize_items_loading env fuel (t # ts) [] a = Some (Some No_viable_overload, [], a)"
| "serialize_items_loading env fuel (t # ts) (first # items) a =
     (case serialize_item_loading env fuel t first a of
        None \<Rightarrow> None
      | Some (Some e, first', a') \<Rightarrow> Some (Some e, first' # items, a')
      | Some (None, first', a') \<Rightarrow>
          (case serialize_items_loading env fuel ts items a' of
             None \<Rightarrow> None
           | Some (e, items', a'') \<Rightarrow> Some (e, first' # items', a'')))"
| "serialize_each_loading env fuel t [] a = Some (None, [], a)"
| "serialize_each_loading env fuel t (item # container) a =
     (case serialize_item_loading env fuel t item a of
        None \<Rightarrow> None
      | Some (Some e, item', a') \<Rightarrow> Some (Some e, item' # container, a')
      | Some (None, item', a') \<Rightarrow>
          (case serialize_each_loading env fuel t container a' of
             None \<Rightarrow> None
           | Some (e, container', a'') \<Rightarrow> Some (e, item' # container', a'')))"
| "insert_each_loading env fuel t 0 container a = Some (None, container, a)"
| "insert_each_loading env fuel t (Suc n) container a =
     (case serialize_item_loading env fuel t (default_val t) a of
        None \<Rightarrow> None
      | Some (Some e, item, a') \<Rightarrow> Some (Some e, container, a')
      | Some (None, item, a') \<Rightarrow>
          insert_each_loading env fuel t n (container_insert env item container) a')"
| "registry_serialize_loading env fuel object a =
     (case view_serialize 8 (object_representation (host env) 8 (0 :: id_type)) a of
        (Some e, bs, a') \<Rightarrow> Some (Some (Thrown e), object, a')
      | (None, bs, a') \<Rightarrow>
          (case m_serialization_id_to_method (loading_registry env)
                  (value_of_representation (host env) bs) of
             None \<Rightarrow> Some (Some (Thrown Undeclared_polymorphic_type_error), object, a')
           | Some method_type \<Rightarrow>
               (case fuel of
                  0 \<Rightarrow> None
                | Suc fuel' \<Rightarrow>
                    (case serialize_items_loading env fuel' (members (classes env method_type))
                            (map default_val (members (classes env method_type))) a' of
                       None \<Rightarrow> None
                     | Some (Some e, self, a'') \<Rightarrow> Some (Some e, object, a'')
                     | Some (None, self, a'') \<Rightarrow>
                         Some (None, Some (Poly method_type self), a'')))))"

  by pat_completeness auto

termination
  by (relation "inv_image (less_than <*lex*> less_than <*lex*> less_than)
        (case_sum
           (case_sum (\<lambda>(env, fuel, t, item, a). (fuel, Suc (size t), 0))
                     (\<lambda>(env, fuel, ts, items, a). (fuel, Suc (size_list size ts), 0)))
           (case_sum (\<lambda>(env, fuel, t, container, a). (fuel, Suc (size t), Suc (length container)))
              (case_sum (\<lambda>(env, fuel, t, n, container, a). (fuel, Suc (size t), Suc n))
                        (\<lambda>(env, fuel, object, a). (fuel, 0, 0)))))")
    auto

section \<open>The memory input archive (archive.h)\<close>

text \<open>
  \<open>memory_input_archive\<close> owns nothing but works on the caller's vector, \<open>m_vector\<close> here
  (\<open>m_input\<close> in the source, which hides the member of the same name of its base class
  \<open>memory_view_input_archive\<close>, here \<open>view\<close>). Every call first points the view at the
  vector, loads, and on both the normal and the exceptional path erases the first
  \<open>get_offset()\<close> bytes of the vector and resets the offset.
\<close>

record memory_input_archive =
  view :: memory_view_input_archive
  m_vector :: "byte list"

definition new_memory_input_archive :: "byte list \<Rightarrow> memory_input_archive" where
  "new_memory_input_archive input =
     \<lparr>view = new_memory_view_input_archive input, m_vector = input\<rparr>"

definition erase_front :: "nat \<Rightarrow> byte list \<Rightarrow> byte list" where
  "erase_front n xs = drop n xs"

definition reset :: "memory_view_input_archive \<Rightarrow> memory_view_input_archive" where
  "reset a = a\<lparr>m_offset := 0\<rparr>"

definition memory_input_archive_call ::
  "env \<Rightarrow> nat \<Rightarrow> ty list \<Rightarrow> val list \<Rightarrow> memory_input_archive
     \<Rightarrow> (failure option \<times> val list \<times> memory_input_archive) option" where
  "memory_input_archive_call env fuel ts items a =
     (case serialize_items_loading env fuel ts items
             (new_memory_view_input_archive (m_vector a)) of
        None \<Rightarrow> None
      | Some (e, items', v) \<Rightarrow>
          Some (e, items',
                \<lparr>view = reset v, m_vector = erase_front (m_offset v) (m_vector a)\<rparr>))"

section \<open>Values of a type, and the values a save accepts\<close>

text \<open>
  \<open>valid False env t v\<close> says that \<open>v\<close> is a value of the type \<open>t\<close>, a type that can be saved
  and loaded: a scalar has the size of its type, a resizable container has an overload
  for loading, an associative container is what inserting its items one by one into an
  empty container gives, an array has its length, and a handle holds nothing or an object
  of its type; an object behind a polymorphic handle has a class that \<open>dynamic_cast\<close>
  converts to the class of the handle and that is registered, under one identifier, with
  the saving and the loading registry. \<open>valid True env t v\<close> says moreover that every handle
  in \<open>v\<close> holds an object, that every container in \<open>v\<close> has fewer than \<open>2 ^ 32\<close> items and
  that every container saved as one block has fewer than \<open>2 ^ 32\<close> bytes.
\<close>

definition registered :: "env \<Rightarrow> cname \<Rightarrow> bool" where
  "registered env d =
     (case m_type_information_to_serialization_id (saving_registry env) d of
        None \<Rightarrow> False
      | Some ident \<Rightarrow>
          m_serialization_id_to_method (saving_registry env) ident = Some d
          \<and> m_serialization_id_to_method (loading_registry env) ident = Some d)"

fun valid :: "bool \<Rightarrow> env \<Rightarrow> ty \<Rightarrow> val \<Rightarrow> bool"
  and valids :: "bool \<Rightarrow> env \<Rightarrow> ty list \<Rightarrow> val list \<Rightarrow> bool"
where
  "valid s env (Fundamental n) v = (case v of Scalar bs \<Rightarrow> length bs = n | _ \<Rightarrow> False)"
| "valid s env (Enumeration n) v = (case v of Scalar bs \<Rightarrow> length bs = n | _ \<Rightarrow> False)"
| "valid s env (Resizable ra dm t) v =
     (case v of
        Items xs \<Rightarrow>
          overload_resolution (viable_loading ra dm t) \<noteq> None
          \<and> (s \<longrightarrow> length xs < 2 ^ 32
                 \<and> (overload_resolution (viable_loading ra dm t) = Some Contiguous
                      \<longrightarrow> length xs * sizeof t < 2 ^ 32))
          \<and> (\<forall>x \<in> set xs. valid s env t x)
      | _ \<Rightarrow> False)"
| "valid s env (Associative t) v =
     (case v of
        Items xs \<Rightarrow>
          (s \<longrightarrow> length xs < 2 ^ 32)
          \<and> foldl (\<lambda>container item. container_insert env item container) [] xs = xs
          \<and> (\<forall>x \<in> set xs. valid s env t x)
      | _ \<Rightarrow> False)"
| "valid s env (Array n t) v =
     (case v of Items xs \<Rightarrow> length xs = n \<and> (\<forall>x \<in> set xs. valid s env t x) | _ \<Rightarrow> False)"
| "valid s env (Pair t1 t2) v =
     (case v of Items xs \<Rightarrow> valids s env [t1, t2] xs | _ \<Rightarrow> False)"
| "valid s env (Tuple ts) v = (case v of Items xs \<Rightarrow> valids s env ts xs | _ \<Rightarrow> False)"
| "valid s env (Class ts) v = (case v of Items xs \<Rightarrow> valids s env ts xs | _ \<Rightarrow> False)"
| "valid s env (Owning k t) v =
     (case v of Handle None \<Rightarrow> \<not> s | Handle (Some x) \<Rightarrow> valid s env t x | _ \<Rightarrow> False)"
| "valid s env (Owning_polymorphic k c) v =
     (case v of
        Handle None \<Rightarrow> \<not> s
      | Handle (Some object) \<Rightarrow>
          (case object of
             Poly d self \<Rightarrow>
               dynamic_cast env d c \<and> registered env d
               \<and> valids s env (members (classes env d)) self
           | _ \<Rightarrow> False)
      | _ \<Rightarrow> False)"
| "valid s env (Polymorphic_wrapper c) v = False"
| "valids s env [] xs = (xs = [])"
| "valids s env (t # ts) [] = False"
| "valids s env (t # ts) (x # xs) = (valid s env t x \<and> valids s env ts xs)"

definition has_type :: "env \<Rightarrow> ty \<Rightarrow> val \<Rightarrow> bool" where
  "has_type env t v = valid False env t v"

definition serializable :: "env \<Rightarrow> ty list \<Rightarrow> val list \<Rightarrow> bool" where
  "serializable env ts vs = valids True env ts vs"

text \<open>
  A step of a save appends: whether it fails does not depend on the archive it starts
  from, and the bytes in use afterwards are the bytes in use before, followed by the bytes
  the step writes into an empty vector.
\<close>

definition appends ::
  "(lazy_vector_memory_output_archive \<Rightarrow> failure option \<times> lazy_vector_memory_output_archive) \<Rightarrow> bool" where
  "appends f =
     (\<forall>a. fst (f a) = fst (f (new_memory_output_archive []))
          \<and> written (snd (f a)) = written a @ written (snd (f (new_memory_output_archive []))))"

text \<open>The bytes a save appends, read off a save into an empty vector.\<close>

definition saved :: "env \<Rightarrow> ty \<Rightarrow> val \<Rightarrow> byte list" where
  "saved env t v = written (snd (serialize_item_saving env t v (new_memory_output_archive [])))"

definition saved_items :: "env \<Rightarrow> ty list \<Rightarrow> val list \<Rightarrow> byte list" where
  "saved_items env ts vs =
     written (snd (serialize_items_saving env ts vs (new_memory_output_archive [])))"

definition saved_each :: "env \<Rightarrow> ty \<Rightarrow> val list \<Rightarrow> byte list" where
  "saved_each env t vs =
     written (snd (serialize_each_saving env t vs (new_memory_output_archive [])))"

definition saved_object :: "env \<Rightarrow> val \<Rightarrow> byte list" where
  "saved_object env v =
     written (snd (registry_serialize_saving env v (new_memory_output_archive [])))"

section \<open>Round trip\<close>

text \<open>
  A view archive over \<open>input\<close> that has read its first \<open>offset\<close> bytes.
\<close>

definition view_at :: "byte list \<Rightarrow> nat \<Rightarrow> memory_view_input_archive" where
  "view_at input offset = \<lparr>m_input = input, m_size = length input, m_offset = offset\<rparr>"

text \<open>
  \<open>round_trips env t v\<close>: the save of \<open>v\<close> succeeds, and wherever its bytes stand in an input,
  a load of a default constructed item of type \<open>t\<close> at their first byte, with enough fuel
  for the bytes left, succeeds, gives \<open>v\<close> and stops behind their last byte.
\<close>

definition round_trips :: "env \<Rightarrow> ty \<Rightarrow> val \<Rightarrow> bool" where
  "round_trips env t v =
     (fst (serialize_item_saving env t v (new_memory_output_archive [])) = None
      \<and> (\<forall>fuel pre post.
            length (saved env t v @ post) < 8 * fuel \<longrightarrow>
            serialize_item_loading env fuel t (default_val t)
                (view_at (pre @ saved env t v @ post) (length pre))
              = Some (None, v,
                      view_at (pre @ saved env t v @ post) (length pre + length (saved env t v)))))"

definition round_trips_items :: "env \<Rightarrow> ty list \<Rightarrow> val list \<Rightarrow> bool" where
  "round_trips_items env ts vs =
     (fst (serialize_items_saving env ts vs (new_memory_output_archive [])) = None
      \<and> (\<forall>fuel pre post.
            length (saved_items env ts vs @ post) < 8 * fuel \<longrightarrow>
            serialize_items_loading env fuel ts (map default_val ts)
                (view_at (pre @ saved_items env ts vs @ post) (length pre))
              = Some (None, vs,
                      view_at (pre @ saved_items env ts vs @ post)
                        (length pre + length (saved_items env ts vs)))))"

section \<open>The example program (examples/archive.cpp)\<close>

text \<open>
  \<open>point\<close> passes two \<open>int\<close> members to the archive; \<open>person\<close> derives from \<open>polymorphic\<close> and
  passes its name, a \<open>std::string\<close>; \<open>student\<close> derives from \<open>person\<close>, calls the hook of
  \<open>person\<close> and passes its university. \<open>register_types\<close> registers both classes with
  both built in archives; the identifiers are parameters here (the program takes
  \<open>make_id("v1::person")\<close> and \<open>make_id("v1::student")\<close>). The associative container of the
  example environment inserts an item at the end unless it is present.
\<close>

definition std_string :: ty where
  "std_string = Resizable True True (Fundamental 1)"

definition point :: ty where
  "point = Class [Fundamental 4, Fundamental 4]"

definition example_classes :: "cname \<Rightarrow> class_decl" where
  "example_classes c =
     (if c = ''student'' then \<lparr>bases = [''person''], members = [std_string, std_string]\<rparr>
      else if c = ''person'' then \<lparr>bases = [], members = [std_string]\<rparr>
      else \<lparr>bases = [], members = []\<rparr>)"

definition example_env :: "endian \<Rightarrow> id_type \<Rightarrow> id_type \<Rightarrow> env" where
  "example_env e person_id student_id =
     \<lparr>host = e, classes = example_classes,
      saving_registry =
        register_types [(''person'', person_id, ''person''), (''student'', student_id, ''student'')]
          empty_registry,
      loading_registry =
        register_types [(''person'', person_id, ''person''), (''student'', student_id, ''student'')]
          empty_registry,
      container_insert = (\<lambda>item container. if item \<in> set container then container
                                               else container @ [item])\<rparr>"

section \<open>Registry monotonicity\<close>

lemma emplace_existing: "m k = Some v \<Longrightarrow> emplace m k' v' k = Some v"
  by (cases "m k'") (auto simp: emplace_def)

lemma emplace_present: "m k = Some v \<Longrightarrow> emplace m k v' = m"
  by (simp add: emplace_def)

lemma add_keeps_method:
  "m_serialization_id_to_method r i = Some p
   \<Longrightarrow> m_serialization_id_to_method (add i' t' p' r) i = Some p"
  by (simp add: add_def emplace_existing)

lemma add_keeps_id:
  "m_type_information_to_serialization_id r t = Some i
   \<Longrightarrow> m_type_information_to_serialization_id (add i' t' p' r) t = Some i"
  by (simp add: add_def emplace_existing)

lemma register_types_keeps_method:
  "m_serialization_id_to_method r i = Some p
   \<Longrightarrow> m_serialization_id_to_method (register_types ts r) i = Some p"
  by (induction ts r rule: register_types.induct) (auto simp: add_keeps_method)

lemma register_types_keeps_id:
  "m_type_information_to_serialization_id r t = Some i
   \<Longrightarrow> m_type_information_to_serialization_id (register_types ts r) t = Some i"
  by (induction ts r rule: register_types.induct) (auto simp: add_keeps_id)

text \<open>
  Claim C6. A registration under an identifier that is already present leaves the
  id-to-method map as it is and leaves every existing key of the type-to-id map with its
  identifier; \<open>add\<close> returns a registry and raises nothing. Every (id, method) pair and every
  (type, id) pair present before a registration, or before a whole list of registrations,
  resolves to the same method and identifier afterwards.
\<close>

theorem registry_monotone:
  "(m_serialization_id_to_method r i = Some p \<longrightarrow>
      m_serialization_id_to_method (add i t' p' r) = m_serialization_id_to_method r)
   \<and> (m_serialization_id_to_method r j = Some q \<longrightarrow>
        m_serialization_id_to_method (add i' t' p' r) j = Some q
        \<and> m_serialization_id_to_method (register_types ts r) j = Some q)
   \<and> (m_type_information_to_serialization_id r t = Some k \<longrightarrow>
        m_type_information_to_serialization_id (add i' t' p' r) t = Some k
        \<and> m_type_information_to_serialization_id (register_types ts r) t = Some k)"
  by (simp add: add_keeps_method add_keeps_id register_types_keeps_method
        register_types_keeps_id)
    (simp add: add_def emplace_present)

theorem registry_monotone_witness:
  "m_serialization_id_to_method
     (add 7 ''student'' (2::nat) (add 7 ''person'' 1 empty_registry)) 7 = Some 1
   \<and> m_type_information_to_serialization_id
       (add 7 ''student'' (2::nat) (add 7 ''person'' 1 empty_registry)) ''person'' = Some 7
   \<and> m_serialization_id_to_method
       (add 7 ''student'' (2::nat) (add 7 ''person'' 1 empty_registry))
     = m_serialization_id_to_method (add 7 ''person'' (1::nat) empty_registry)"
  using registry_monotone [of "add 7 ''person'' (1::nat) empty_registry" 7 1 "''student''" 2
      7 1 7 "[]" "''person''" 7]
  by (simp add: add_def emplace_def empty_registry_def)

section \<open>Short input on the view archive\<close>

text \<open>
  Claim C4. On a view archive over a buffer of \<open>m_size\<close> bytes, loading a scalar of
  \<open>sizeof_item\<close> bytes throws the out-of-range failure exactly when fewer than
  \<open>sizeof_item\<close> bytes remain from the offset; then the archive (its offset included) and
  the item are as before. Otherwise nothing is thrown, the offset advances by exactly
  \<open>sizeof_item\<close> and the item holds the bytes that were at the offset.
\<close>

theorem view_serialize_out_of_range:
  assumes "m_size a = length (m_input a)" and "m_offset a \<le> m_size a"
    and "view_serialize sizeof_item item a = (e, item', a')"
  shows "(e = Some Out_of_range \<longleftrightarrow> remaining a < sizeof_item)
    \<and> (e = None \<or> e = Some Out_of_range)
    \<and> (e = Some Out_of_range \<longrightarrow> a' = a \<and> item' = item)
    \<and> (e = None \<longrightarrow> m_offset a' = m_offset a + sizeof_item \<and> m_input a' = m_input a
          \<and> m_size a' = m_size a \<and> length item' = sizeof_item
          \<and> item' = take sizeof_item (drop (m_offset a) (m_input a)))"
  using assms
  by (auto simp: view_serialize_def remaining_def copy_n_def split: if_splits)

theorem view_serialize_out_of_range_witness:
  "view_serialize 4 [0, 0, 0, 0] (new_memory_view_input_archive [1, 2, 3])
     = (Some Out_of_range, [0, 0, 0, 0], new_memory_view_input_archive [1, 2, 3])
   \<and> remaining (new_memory_view_input_archive [1, 2, 3]) < 4"
  using view_serialize_out_of_range [of "new_memory_view_input_archive [1, 2, 3]" 4
      "[0, 0, 0, 0]" "Some Out_of_range" "[0, 0, 0, 0]" "new_memory_view_input_archive [1, 2, 3]"]
  by (simp add: view_serialize_def new_memory_view_input_archive_def remaining_def)

section \<open>Loading: the archive is only read forward, and enough fuel gives a result\<close>

lemma frame_refl: "frame a a"
  by (simp add: frame_def)

lemma frame_trans: "frame a b \<Longrightarrow> frame b c \<Longrightarrow> frame a c"
  by (auto simp: frame_def)

lemma view_serialize_frame: "view_serialize n item a = (e, bs, a') \<Longrightarrow> frame a a'"
  by (auto simp: view_serialize_def frame_def split: if_splits)

lemma view_serialize_binary_frame: "view_serialize_binary n item a = (e, bs, a') \<Longrightarrow> frame a a'"
  by (auto simp: view_serialize_binary_def frame_def split: if_splits)

lemma load_size_frame: "load_size env a = (e, sz, a') \<Longrightarrow> frame a a'"
  by (auto simp: load_size_def split: prod.splits dest: view_serialize_frame)

lemma load_frame:
  "serialize_item_loading env fuel t item a = Some (e, item', a') \<Longrightarrow> frame a a'"
  "serialize_items_loading env fuel ts items a = Some (e, items', a') \<Longrightarrow> frame a a'"
  "serialize_each_loading env fuel t container a = Some (e, items', a') \<Longrightarrow> frame a a'"
  "insert_each_loading env fuel t n container a = Some (e, items', a') \<Longrightarrow> frame a a'"
  "registry_serialize_loading env fuel object a = Some (e, object', a') \<Longrightarrow> frame a a'"
proof (induction env fuel t item a and env fuel ts items a and env fuel t container a
    and env fuel t n container a and env fuel object a
    arbitrary: e item' a' and e items' a' and e items' a' and e items' a' and e object' a'
    rule: serialize_item_loading_serialize_items_loading_serialize_each_loading_insert_each_loading_registry_serialize_loading.induct)
  case (1 env fuel n item a)
  then show ?case
    by (auto split: prod.splits option.splits dest: view_serialize_frame)
next
  case (2 env fuel n item a)
  then show ?case
    by (auto split: prod.splits option.splits dest: view_serialize_frame)
next
  case (3 env fuel ra dm t item a)
  show ?case
  proof (cases "overload_resolution (viable_loading ra dm t)")
    case None
    with "3.prems" show ?thesis by (simp add: frame_refl)
  next
    case (Some p)
    note sel = this
    obtain es sz a1 where ls: "load_size env a = (es, sz, a1)"
      by (cases "load_size env a") auto
    have f1: "frame a a1" using ls by (rule load_size_frame)
    show ?thesis
    proof (cases es)
      case (Some err)
      with "3.prems" ls sel f1
      show ?thesis by (cases p) auto
    next
      case None
      note ok = this
      show ?thesis
      proof (cases p)
        case Per_element
        with "3.prems" ls ok sel
        obtain c where "serialize_each_loading env fuel t
                       (resize (unat sz) (default_val t) (items_of item)) a1 = Some (e, c, a')"
          by (auto split: option.splits)
        from "3.IH"[OF sel Per_element ls[symmetric] ok refl this]
        have "frame a1 a'" .
        with f1 show ?thesis by (rule frame_trans)
      next
        case Contiguous
        show ?thesis
        proof (cases "sz = 0")
          case True
          with "3.prems" ls ok sel Contiguous f1 show ?thesis by (simp add: Let_def)
        next
          case False
          obtain eb data a2 where vb: "view_serialize_binary
              (size_in_bytes (of_nat (length (resize (unat sz) (default_val t) (items_of item)))) (sizeof t))
              (concat (map bytes_of (resize (unat sz) (default_val t) (items_of item)))) a1 = (eb, data, a2)"
            using prod_cases3 by blast
          have f2: "frame a1 a2" using vb by (rule view_serialize_binary_frame)
          have "a' = a2"
            using "3.prems" ls ok sel Contiguous False vb
            by (cases eb) (simp_all add: Let_def)
          with f1 f2 show ?thesis by (auto intro: frame_trans)
        qed
      qed
    qed
  qed
next
  case (4 env fuel t item a)
  obtain es sz a1 where ls: "load_size env a = (es, sz, a1)"
    by (cases "load_size env a") auto
  have f1: "frame a a1" using ls by (rule load_size_frame)
  show ?case
  proof (cases es)
    case (Some err)
    with "4.prems" ls f1 show ?thesis by simp
  next
    case None
    with "4.prems" ls obtain c where
      "insert_each_loading env fuel t (unat sz) (items_of item) a1 = Some (e, c, a')"
      by (auto split: option.splits)
    from "4.IH"[OF ls[symmetric] None refl this] have "frame a1 a'" .
    with f1 show ?thesis by (rule frame_trans)
  qed
next
  case (5 env fuel n t item a)
  from "5.prems" obtain c where
    "serialize_each_loading env fuel t (items_of item) a = Some (e, c, a')"
    by (auto split: option.splits)
  then show ?case by (rule "5.IH")
next
  case (6 env fuel t1 t2 item a)
  show ?case
  proof (cases "items_of item")
    case Nil
    with "6.prems" show ?thesis by (simp add: frame_refl)
  next
    case (Cons first rest)
    note c1 = this
    show ?thesis
    proof (cases rest)
      case Nil
      with "6.prems" c1 show ?thesis by (simp add: frame_refl)
    next
      case (Cons second rest')
      note c2 = this
      show ?thesis
      proof (cases rest')
        case (Cons x xs)
        with "6.prems" c1 c2 show ?thesis by (simp add: frame_refl)
      next
        case Nil
        with c1 c2 have it: "items_of item = [first, second]" by simp
        from "6.prems" it obtain e1 first' a1 where
          l1: "serialize_item_loading env fuel t1 first a = Some (e1, first', a1)"
          by (auto split: option.splits)
        from "6.IH"(1)[OF c1 c2 Nil l1] have f1: "frame a a1" .
        show ?thesis
        proof (cases e1)
          case (Some err)
          with "6.prems" it l1 f1 show ?thesis by simp
        next
          case None
          with "6.prems" it l1 obtain second' where
            l2: "serialize_item_loading env fuel t2 second a1 = Some (e, second', a')"
            by (auto split: option.splits)
          from "6.IH"(2)[OF c1 c2 Nil l1 refl None refl l2] have "frame a1 a'" .
          with f1 show ?thesis by (rule frame_trans)
        qed
      qed
    qed
  qed
next
  case (7 env fuel ts item a)
  from "7.prems" obtain c where
    "serialize_items_loading env fuel ts (items_of item) a = Some (e, c, a')"
    by (auto split: option.splits)
  then show ?case by (rule "7.IH")
next
  case (8 env fuel ts item a)
  from "8.prems" obtain c where
    "serialize_items_loading env fuel ts (items_of item) a = Some (e, c, a')"
    by (auto split: option.splits)
  then show ?case by (rule "8.IH")
next
  case (9 env fuel k t item a)
  from "9.prems" obtain e1 x where
    "serialize_item_loading env fuel t (default_val t) a = Some (e1, x, a')"
    by (auto split: option.splits)
  then show ?case by (rule "9.IH")
next
  case (10 env fuel k c item a)
  from "10.prems" obtain e1 x where
    "registry_serialize_loading env fuel None a = Some (e1, x, a')"
    by (auto split: option.splits prod.splits)
  then show ?case by (rule "10.IH")
next
  case (11 env fuel c item a)
  then show ?case by (simp add: frame_refl)
next
  case (12 env fuel items a)
  then show ?case by (simp add: frame_refl)
next
  case (13 env fuel t ts a)
  then show ?case by (simp add: frame_refl)
next
  case (14 env fuel t ts first items a)
  from "14.prems" obtain e1 first' a1 where
    l1: "serialize_item_loading env fuel t first a = Some (e1, first', a1)"
    by (auto split: option.splits)
  from "14.IH"(1)[OF l1] have f1: "frame a a1" .
  show ?case
  proof (cases e1)
    case (Some err)
    with "14.prems" l1 f1 show ?thesis by simp
  next
    case None
    with "14.prems" l1 obtain rest where
      l2: "serialize_items_loading env fuel ts items a1 = Some (e, rest, a')"
      by (auto split: option.splits)
    from "14.IH"(2)[OF l1 refl None refl l2] have "frame a1 a'" .
    with f1 show ?thesis by (rule frame_trans)
  qed
next
  case (15 env fuel t a)
  then show ?case by (simp add: frame_refl)
next
  case (16 env fuel t item container a)
  from "16.prems" obtain e1 item1 a1 where
    l1: "serialize_item_loading env fuel t item a = Some (e1, item1, a1)"
    by (auto split: option.splits)
  from "16.IH"(1)[OF l1] have f1: "frame a a1" .
  show ?case
  proof (cases e1)
    case (Some err)
    with "16.prems" l1 f1 show ?thesis by simp
  next
    case None
    with "16.prems" l1 obtain rest where
      l2: "serialize_each_loading env fuel t container a1 = Some (e, rest, a')"
      by (auto split: option.splits)
    from "16.IH"(2)[OF l1 refl None refl l2] have "frame a1 a'" .
    with f1 show ?thesis by (rule frame_trans)
  qed
next
  case (17 env fuel t container a)
  then show ?case by (simp add: frame_refl)
next
  case (18 env fuel t n container a)
  from "18.prems" obtain e1 item1 a1 where
    l1: "serialize_item_loading env fuel t (default_val t) a = Some (e1, item1, a1)"
    by (auto split: option.splits)
  from "18.IH"(1)[OF l1] have f1: "frame a a1" .
  show ?case
  proof (cases e1)
    case (Some err)
    with "18.prems" l1 f1 show ?thesis by simp
  next
    case None
    with "18.prems" l1 have
      l2: "insert_each_loading env fuel t n (container_insert env item1 container) a1
             = Some (e, items', a')"
      by simp
    from "18.IH"(2)[OF l1 refl None refl l2] have "frame a1 a'" .
    with f1 show ?thesis by (rule frame_trans)
  qed
next
  case (19 env fuel object a)
  obtain e1 bs a1 where
    vs: "view_serialize 8 (object_representation (host env) 8 (0 :: id_type)) a = (e1, bs, a1)"
    using prod_cases3 by blast
  have f1: "frame a a1" using vs by (rule view_serialize_frame)
  show ?case
  proof (cases e1)
    case (Some err)
    with "19.prems" vs f1 show ?thesis by simp
  next
    case None
    note ok = this
    show ?thesis
    proof (cases "m_serialization_id_to_method (loading_registry env)
                    (value_of_representation (host env) bs)")
      case None
      with "19.prems" vs ok f1 show ?thesis by simp
    next
      case (Some method_type)
      note m = this
      show ?thesis
      proof (cases fuel)
        case 0
        with "19.prems" vs ok m show ?thesis by simp
      next
        case (Suc fuel')
        with "19.prems" vs ok m obtain e2 self where
          l2: "serialize_items_loading env fuel' (members (classes env method_type))
                 (map default_val (members (classes env method_type))) a1 = Some (e2, self, a')"
          by (auto split: option.splits)
        from "19.IH"[OF vs[symmetric] ok refl m Suc l2] have "frame a1 a'" .
        with f1 show ?thesis by (rule frame_trans)
      qed
    qed
  qed
qed


lemma frame_remaining: "frame a a' \<Longrightarrow> m_size a' - m_offset a' \<le> m_size a - m_offset a"
  by (auto simp: frame_def)

lemma load_returns:
  "m_size a - m_offset a < 8 * fuel \<Longrightarrow> \<exists>r. serialize_item_loading env fuel t item a = Some r"
  "m_size a - m_offset a < 8 * fuel \<Longrightarrow> \<exists>r. serialize_items_loading env fuel ts items a = Some r"
  "m_size a - m_offset a < 8 * fuel \<Longrightarrow> \<exists>r. serialize_each_loading env fuel t container a = Some r"
  "m_size a - m_offset a < 8 * fuel \<Longrightarrow> \<exists>r. insert_each_loading env fuel t n container a = Some r"
  "m_size a - m_offset a < 8 * fuel \<Longrightarrow> \<exists>r. registry_serialize_loading env fuel object a = Some r"
proof (induction env fuel t item a and env fuel ts items a and env fuel t container a
    and env fuel t n container a and env fuel object a
    rule: serialize_item_loading_serialize_items_loading_serialize_each_loading_insert_each_loading_registry_serialize_loading.induct)
  case (1 env fuel n item a)
  show ?case by (simp split: prod.splits option.splits)
next
  case (2 env fuel n item a)
  show ?case by (simp split: prod.splits option.splits)
next
  case (3 env fuel ra dm t item a)
  show ?case
  proof (cases "overload_resolution (viable_loading ra dm t)")
    case None
    then show ?thesis by simp
  next
    case (Some p)
    note sel = this
    obtain es sz a1 where ls: "load_size env a = (es, sz, a1)"
      using prod_cases3 by blast
    have f1: "frame a a1" using ls by (rule load_size_frame)
    show ?thesis
    proof (cases es)
      case (Some err)
      with ls sel show ?thesis by (cases p) simp_all
    next
      case None
      note ok = this
      show ?thesis
      proof (cases p)
        case Per_element
        have "m_size a1 - m_offset a1 < 8 * fuel"
          using frame_remaining[OF f1] "3.prems" by simp
        from "3.IH"[OF sel Per_element ls[symmetric] ok refl this]
        obtain r where "serialize_each_loading env fuel t
            (resize (unat sz) (default_val t) (items_of item)) a1 = Some r" by blast
        with sel Per_element ls ok show ?thesis by (cases r) simp
      next
        case Contiguous
        with sel ls ok show ?thesis
          by (simp add: Let_def split: prod.splits option.splits)
      qed
    qed
  qed
next
  case (4 env fuel t item a)
  obtain es sz a1 where ls: "load_size env a = (es, sz, a1)"
    using prod_cases3 by blast
  have f1: "frame a a1" using ls by (rule load_size_frame)
  show ?case
  proof (cases es)
    case (Some err)
    with ls show ?thesis by simp
  next
    case None
    have "m_size a1 - m_offset a1 < 8 * fuel"
      using frame_remaining[OF f1] "4.prems" by simp
    from "4.IH"[OF ls[symmetric] None refl this]
    obtain r where "insert_each_loading env fuel t (unat sz) (items_of item) a1 = Some r"
      by blast
    with ls None show ?thesis by (cases r) simp
  qed
next
  case (5 env fuel n t item a)
  from "5.IH"[OF "5.prems"] obtain r where
    "serialize_each_loading env fuel t (items_of item) a = Some r" by blast
  then show ?case by (cases r) simp
next
  case (6 env fuel t1 t2 item a)
  show ?case
  proof (cases "items_of item")
    case Nil
    then show ?thesis by simp
  next
    case (Cons first rest)
    note c1 = this
    show ?thesis
    proof (cases rest)
      case Nil
      with c1 show ?thesis by simp
    next
      case (Cons second rest')
      note c2 = this
      show ?thesis
      proof (cases rest')
        case (Cons x xs)
        with c1 c2 show ?thesis by simp
      next
        case Nil
        with c1 c2 have it: "items_of item = [first, second]" by simp
        from "6.IH"(1)[OF c1 c2 Nil "6.prems"] obtain e1 first' a1 where
          l1: "serialize_item_loading env fuel t1 first a = Some (e1, first', a1)"
          using prod_cases3 by metis
        from load_frame(1)[OF l1] have f1: "frame a a1" .
        show ?thesis
        proof (cases e1)
          case (Some err)
          with it l1 show ?thesis by simp
        next
          case None
          have "m_size a1 - m_offset a1 < 8 * fuel"
            using frame_remaining[OF f1] "6.prems" by simp
          from "6.IH"(2)[OF c1 c2 Nil l1 refl None refl this] obtain r where
            "serialize_item_loading env fuel t2 second a1 = Some r" by blast
          with it l1 None show ?thesis by (cases r) simp
        qed
      qed
    qed
  qed
next
  case (7 env fuel ts item a)
  from "7.IH"[OF "7.prems"] obtain r where
    "serialize_items_loading env fuel ts (items_of item) a = Some r" by blast
  then show ?case by (cases r) simp
next
  case (8 env fuel ts item a)
  from "8.IH"[OF "8.prems"] obtain r where
    "serialize_items_loading env fuel ts (items_of item) a = Some r" by blast
  then show ?case by (cases r) simp
next
  case (9 env fuel k t item a)
  from "9.IH"[OF "9.prems"] obtain e1 x a1 where
    "serialize_item_loading env fuel t (default_val t) a = Some (e1, x, a1)"
    using prod_cases3 by metis
  then show ?case by (cases e1) simp_all
next
  case (10 env fuel k c item a)
  from "10.IH"[OF "10.prems"] obtain e1 x a1 where
    "registry_serialize_loading env fuel None a = Some (e1, x, a1)"
    using prod_cases3 by metis
  then show ?case by (cases e1) (simp_all split: prod.splits)
next
  case (11 env fuel c item a)
  show ?case by simp
next
  case (12 env fuel items a)
  show ?case by simp
next
  case (13 env fuel t ts a)
  show ?case by simp
next
  case (14 env fuel t ts first items a)
  from "14.IH"(1)[OF "14.prems"] obtain e1 first' a1 where
    l1: "serialize_item_loading env fuel t first a = Some (e1, first', a1)"
    using prod_cases3 by metis
  from load_frame(1)[OF l1] have f1: "frame a a1" .
  show ?case
  proof (cases e1)
    case (Some err)
    with l1 show ?thesis by simp
  next
    case None
    have "m_size a1 - m_offset a1 < 8 * fuel"
      using frame_remaining[OF f1] "14.prems" by simp
    from "14.IH"(2)[OF l1 refl None refl this] obtain r where
      "serialize_items_loading env fuel ts items a1 = Some r" by blast
    with l1 None show ?thesis by (cases r) simp
  qed
next
  case (15 env fuel t a)
  show ?case by simp
next
  case (16 env fuel t item container a)
  from "16.IH"(1)[OF "16.prems"] obtain e1 item1 a1 where
    l1: "serialize_item_loading env fuel t item a = Some (e1, item1, a1)"
    using prod_cases3 by metis
  from load_frame(1)[OF l1] have f1: "frame a a1" .
  show ?case
  proof (cases e1)
    case (Some err)
    with l1 show ?thesis by simp
  next
    case None
    have "m_size a1 - m_offset a1 < 8 * fuel"
      using frame_remaining[OF f1] "16.prems" by simp
    from "16.IH"(2)[OF l1 refl None refl this] obtain r where
      "serialize_each_loading env fuel t container a1 = Some r" by blast
    with l1 None show ?thesis by (cases r) simp
  qed
next
  case (17 env fuel t container a)
  show ?case by simp
next
  case (18 env fuel t n container a)
  from "18.IH"(1)[OF "18.prems"] obtain e1 item1 a1 where
    l1: "serialize_item_loading env fuel t (default_val t) a = Some (e1, item1, a1)"
    using prod_cases3 by metis
  from load_frame(1)[OF l1] have f1: "frame a a1" .
  show ?case
  proof (cases e1)
    case (Some err)
    with l1 show ?thesis by simp
  next
    case None
    have "m_size a1 - m_offset a1 < 8 * fuel"
      using frame_remaining[OF f1] "18.prems" by simp
    from "18.IH"(2)[OF l1 refl None refl this] obtain r where
      "insert_each_loading env fuel t n (container_insert env item1 container) a1 = Some r"
      by blast
    with l1 None show ?thesis by (cases r) simp
  qed
next
  case (19 env fuel object a)
  obtain e1 bs a1 where
    vs: "view_serialize 8 (object_representation (host env) 8 (0 :: id_type)) a = (e1, bs, a1)"
    using prod_cases3 by blast
  show ?case
  proof (cases e1)
    case (Some err)
    with vs show ?thesis by simp
  next
    case None
    note ok = this
    show ?thesis
    proof (cases "m_serialization_id_to_method (loading_registry env)
                    (value_of_representation (host env) bs)")
      case None
      with vs ok show ?thesis by simp
    next
      case (Some method_type)
      note m = this
      from vs ok have adv: "m_size a1 = m_size a" "m_offset a1 = m_offset a + 8"
        "m_offset a + 8 \<le> m_size a"
        by (auto simp: view_serialize_def split: if_splits)
      show ?thesis
      proof (cases fuel)
        case 0
        with "19.prems" show ?thesis by simp
      next
        case (Suc fuel')
        have "m_size a1 - m_offset a1 < 8 * fuel'"
          using adv "19.prems" Suc by simp
        from "19.IH"[OF vs[symmetric] ok refl m Suc this] obtain e2 self a2 where
          "serialize_items_loading env fuel' (members (classes env method_type))
             (map default_val (members (classes env method_type))) a1 = Some (e2, self, a2)"
          using prod_cases3 by metis
        with vs ok m Suc show ?thesis by (cases e2) simp_all
      qed
    qed
  qed
qed

section \<open>The identifier is the truncated SHA-1 of the name\<close>

lemma bit_swap16:
  "bit (swap_byte_order16 v) n \<longleftrightarrow> (n < 8 \<and> bit v (n + 8)) \<or> (8 \<le> n \<and> n < 16 \<and> bit v (n - 8))"
  by (auto simp: swap_byte_order16_def swap_byte_order8_def bit_simps ac_simps dest: bit_imp_le_length)

lemma byte_position_cases:
  fixes n :: nat
  obtains "n < 8" | m where "n = 8 + m" "m < 8" | m where "n = 16 + m" "m < 8"
    | m where "n = 24 + m" "m < 8" | m where "n = 32 + m"
proof -
  have "n < 8 \<or> (n = 8 + (n - 8) \<and> n - 8 < 8) \<or> (n = 16 + (n - 16) \<and> n - 16 < 8)
     \<or> (n = 24 + (n - 24) \<and> n - 24 < 8) \<or> n = 32 + (n - 32)"
    by arith
  then show ?thesis using that by blast
qed

lemma bit_swap32:
  "bit (swap_byte_order32 v) n \<longleftrightarrow>
     (n < 8 \<and> bit v (n + 24)) \<or> (8 \<le> n \<and> n < 16 \<and> bit v (n + 8))
     \<or> (16 \<le> n \<and> n < 24 \<and> bit v (n - 8)) \<or> (24 \<le> n \<and> n < 32 \<and> bit v (n - 24))"
  by (cases n rule: byte_position_cases)
    (simp_all add: swap_byte_order32_def bit_simps bit_swap16 ac_simps)

lemma swap_byte_order32_involution: "swap_byte_order32 (swap_byte_order32 x) = x"
proof (rule bit_word_eqI)
  fix n assume "n < LENGTH(32)"
  then show "bit (swap_byte_order32 (swap_byte_order32 x)) n = bit x n"
    by (cases n rule: byte_position_cases) (simp_all add: bit_swap32 ac_simps)
qed

lemma swap_byte_order32_xor:
  "swap_byte_order32 (x XOR y) = swap_byte_order32 x XOR swap_byte_order32 y"
  by (rule bit_word_eqI) (auto simp: bit_swap32 bit_simps)

lemma swap_byte_order32_or:
  "swap_byte_order32 (x OR y) = swap_byte_order32 x OR swap_byte_order32 y"
  by (rule bit_word_eqI) (auto simp: bit_swap32 bit_simps)

lemma swap_byte_order32_push_byte:
  fixes b :: "8 word"
  assumes "r < 4"
  shows "swap_byte_order32 (push_bit ((3 - r) * 8) (ucast b)) = push_bit (8 * r) (ucast b)"
proof -
  from assms consider "r = 0" | "r = 1" | "r = 2" | "r = 3" by arith
  then show ?thesis
  proof cases
    case 1
    show ?thesis
    proof (rule bit_word_eqI)
      fix n assume "n < LENGTH(32)"
      then show "bit (swap_byte_order32 (push_bit ((3 - r) * 8) (ucast b))) n
               = bit (push_bit (8 * r) (ucast b :: 32 word)) n"
        using 1 by (cases n rule: byte_position_cases) (auto simp: bit_swap32 bit_simps dest: bit_imp_le_length)
    qed
  next
    case 2
    show ?thesis
    proof (rule bit_word_eqI)
      fix n assume "n < LENGTH(32)"
      then show "bit (swap_byte_order32 (push_bit ((3 - r) * 8) (ucast b))) n
               = bit (push_bit (8 * r) (ucast b :: 32 word)) n"
        using 2 by (cases n rule: byte_position_cases) (auto simp: bit_swap32 bit_simps dest: bit_imp_le_length)
    qed
  next
    case 3
    show ?thesis
    proof (rule bit_word_eqI)
      fix n assume "n < LENGTH(32)"
      then show "bit (swap_byte_order32 (push_bit ((3 - r) * 8) (ucast b))) n
               = bit (push_bit (8 * r) (ucast b :: 32 word)) n"
        using 3 by (cases n rule: byte_position_cases) (auto simp: bit_swap32 bit_simps dest: bit_imp_le_length)
    qed
  next
    case 4
    show ?thesis
    proof (rule bit_word_eqI)
      fix n assume "n < LENGTH(32)"
      then show "bit (swap_byte_order32 (push_bit ((3 - r) * 8) (ucast b))) n
               = bit (push_bit (8 * r) (ucast b :: 32 word)) n"
        using 4 by (cases n rule: byte_position_cases) (auto simp: bit_swap32 bit_simps dest: bit_imp_le_length)
    qed
  qed
qed

lemma rotate_left_word_rotl:
  assumes "0 < k" "k < 32"
  shows "rotate_left x k = word_rotl k x"
proof (rule bit_word_eqI)
  fix n assume "n < LENGTH(32)"
  then have n: "n < 32" by simp
  define j where "j = 32 - k"
  have k: "k = 32 - j" "0 < j" "j < 32" using assms by (auto simp: j_def)
  have rot: "bit (word_rotl k x) n = bit x ((n + j) mod 32)"
    using n assms by (simp add: bit_word_rotl_iff j_def)
  have lhs: "bit (rotate_left x k) n = ((k \<le> n \<and> bit x (n - k)) \<or> bit x (j + n))"
    using n by (auto simp: rotate_left_def bit_simps j_def)
  show "bit (rotate_left x k) n = bit (word_rotl k x) n"
  proof (cases "k \<le> n")
    case True
    then have "(n + j) mod 32 = n - k" "\<not> j + n < 32"
      using k n by (simp_all add: mod_if)
    with True lhs rot show ?thesis
      by (auto dest: bit_imp_le_length)
  next
    case False
    then have "(n + j) mod 32 = j + n"
      using k n by simp
    with False lhs rot show ?thesis by simp
  qed
qed


lemma little_endian_value_update:
  "r < length xs \<Longrightarrow> xs ! r = 0 \<Longrightarrow>
   (little_endian_value (xs[r := c]) :: 'a::len word)
     = little_endian_value xs OR push_bit (8 * r) (ucast c)"
proof (induction xs arbitrary: r)
  case Nil
  then show ?case by simp
next
  case (Cons b bs)
  show ?case
  proof (cases r)
    case 0
    with Cons.prems show ?thesis by (simp add: ac_simps)
  next
    case (Suc r')
    with Cons.prems have "r' < length bs" "bs ! r' = 0" by simp_all
    from Cons.IH[OF this] Suc show ?thesis
      by (simp add: push_bit_or push_bit_push_bit ac_simps)
  qed
qed

lemma little_endian_words_update:
  assumes "i < length bs" "bs ! i = 0" "4 dvd length bs"
  shows "little_endian_words (bs[i := c])
       = (little_endian_words bs)[i div 4 :=
            little_endian_words bs ! (i div 4) OR push_bit (8 * (i mod 4)) (ucast c)]"
proof (rule nth_equalityI)
  show "length (little_endian_words (bs[i := c]))
      = length ((little_endian_words bs)[i div 4 :=
            little_endian_words bs ! (i div 4) OR push_bit (8 * (i mod 4)) (ucast c)])"
    by (simp add: little_endian_words_def)
next
  fix k assume "k < length (little_endian_words (bs[i := c]))"
  then have k: "k < length bs div 4" by (simp add: little_endian_words_def)
  from assms(3) k have k4: "4 * k + 4 \<le> length bs" by (auto elim!: dvdE)
  show "little_endian_words (bs[i := c]) ! k
      = (little_endian_words bs)[i div 4 :=
            little_endian_words bs ! (i div 4) OR push_bit (8 * (i mod 4)) (ucast c)] ! k"
  proof (cases "k = i div 4")
    case True
    then have i: "4 * k \<le> i" "i - 4 * k = i mod 4" "i mod 4 < 4"
      by (simp_all add: minus_mult_div_eq_mod mult.commute)
    have "take 4 (drop (4 * k) (bs[i := c])) = (take 4 (drop (4 * k) bs))[i mod 4 := c]"
      using i by (simp add: drop_update_swap take_update_swap)
    moreover have "i mod 4 < length (take 4 (drop (4 * k) bs))"
      using k4 by simp
    moreover have "take 4 (drop (4 * k) bs) ! (i mod 4) = 0"
      using k4 i assms(2) True by simp
    ultimately show ?thesis
      using k True by (simp add: little_endian_words_def little_endian_value_update)
  next
    case False
    then have "i < 4 * k \<or> 4 * k + 4 \<le> i" by arith
    then have "take 4 (drop (4 * k) (bs[i := c])) = take 4 (drop (4 * k) bs)"
    proof
      assume "i < 4 * k"
      then show ?thesis by simp
    next
      assume "4 * k + 4 \<le> i"
      then show ?thesis by (simp add: drop_update_swap take_update_cancel)
    qed
    with k False show ?thesis by (simp add: little_endian_words_def)
  qed
qed


lemma little_endian_bytes_4:
  "little_endian_bytes 4 x = [ucast x, ucast (drop_bit 8 x), ucast (drop_bit 16 x), ucast (drop_bit 24 x)]"
proof -
  have "little_endian_bytes (Suc (Suc (Suc (Suc 0)))) x
      = [ucast x, ucast (drop_bit 8 x), ucast (drop_bit 16 x), ucast (drop_bit 24 x)]"
    by (simp add: drop_bit_drop_bit)
  then show ?thesis by (simp add: numeral_eq_Suc)
qed

lemma little_endian_bytes_8:
  "little_endian_bytes 8 x = [ucast x, ucast (drop_bit 8 x), ucast (drop_bit 16 x), ucast (drop_bit 24 x),
     ucast (drop_bit 32 x), ucast (drop_bit 40 x), ucast (drop_bit 48 x), ucast (drop_bit 56 x)]"
proof -
  have "little_endian_bytes (Suc (Suc (Suc (Suc (Suc (Suc (Suc (Suc 0)))))))) x
      = [ucast x, ucast (drop_bit 8 x), ucast (drop_bit 16 x), ucast (drop_bit 24 x),
     ucast (drop_bit 32 x), ucast (drop_bit 40 x), ucast (drop_bit 48 x), ucast (drop_bit 56 x)]"
    by (simp add: drop_bit_drop_bit)
  then show ?thesis by (simp add: numeral_eq_Suc)
qed

lemma swap_byte_order32_bytes:
  "swap_byte_order32 x = little_endian_value (rev (little_endian_bytes 4 x))"
proof (rule bit_word_eqI)
  fix n assume "n < LENGTH(32)"
  then show "bit (swap_byte_order32 x) n
           = bit (little_endian_value (rev (little_endian_bytes 4 x)) :: 32 word) n"
    by (cases n rule: byte_position_cases)
      (auto simp: little_endian_bytes_4 bit_swap32 bit_simps ac_simps dest: bit_imp_le_length)
qed

lemma swap_byte_order32_little_endian_value:
  "swap_byte_order32 (little_endian_value [a, b, c, d]) = big_endian_word [a, b, c, d]"
proof (rule bit_word_eqI)
  fix n assume "n < LENGTH(32)"
  then show "bit (swap_byte_order32 (little_endian_value [a, b, c, d])) n
           = bit (big_endian_word [a, b, c, d]) n"
    by (cases n rule: byte_position_cases)
      (auto simp: big_endian_word_def bit_swap32 bit_simps ac_simps dest: bit_imp_le_length)
qed

lemma ascii_uint32_of_char:
  assumes "(of_char c :: nat) < 128"
  shows "uint32_of_char c = ucast (of_char c :: byte)"
proof -
  have "\<not> bit (of_char c :: nat) 7"
    using assms by (simp add: bit_iff_odd)
  then have "\<not> bit (of_char c :: byte) 7"
    by (metis bit_of_nat_iff of_nat_of_char)
  then have high: "\<not> bit (of_char c :: byte) n" if "7 \<le> n" for n
    using that bit_imp_le_length[of "of_char c :: byte" n]
    by (cases "n = 7") auto
  show ?thesis
    unfolding uint32_of_char_def
  proof (rule bit_word_eqI)
    fix n assume "n < LENGTH(32)"
    then show "bit (scast (of_char c :: byte) :: 32 word) n = bit (ucast (of_char c :: byte) :: 32 word) n"
      using high[of n] high[of 7]
      by (cases "n < 7") (auto simp: bit_simps min_def)
  qed
qed


lemma little_endian_value_zeros: "little_endian_value (replicate n 0) = 0"
  by (induction n) simp_all

lemma little_endian_words_zeros:
  "little_endian_words (replicate (4 * n) 0) = replicate n 0"
  by (rule nth_equalityI)
    (simp_all add: little_endian_words_def little_endian_value_zeros min_def)

lemma ucast_drop_bit_low:
  "k + 8 \<le> 32 \<Longrightarrow>
   (ucast (drop_bit k (ucast (w :: 64 word) :: 32 word)) :: byte) = ucast (drop_bit k w)"
  by (rule bit_word_eqI) (auto simp: bit_simps)

lemma ucast_drop_bit_high:
  "k + 8 \<le> 32 \<Longrightarrow>
   (ucast (drop_bit k (ucast (drop_bit 32 (w :: 64 word)) :: 32 word)) :: byte)
     = ucast (drop_bit (32 + k) w)"
  by (rule bit_word_eqI) (auto simp: bit_simps ac_simps)

lemma big_endian_length_words:
  fixes w :: "64 word"
  shows "swap_byte_order32 (ucast (drop_bit 32 w))
           = little_endian_value (take 4 (rev (little_endian_bytes 8 w)))"
    and "swap_byte_order32 (ucast w)
           = little_endian_value (drop 4 (rev (little_endian_bytes 8 w)))"
  using ucast_drop_bit_low[of 0 w] ucast_drop_bit_low[of 8 w] ucast_drop_bit_low[of 16 w]
    ucast_drop_bit_low[of 24 w] ucast_drop_bit_high[of 0 w] ucast_drop_bit_high[of 8 w]
    ucast_drop_bit_high[of 16 w] ucast_drop_bit_high[of 24 w]
  by (simp_all add: swap_byte_order32_bytes little_endian_bytes_4 little_endian_bytes_8)

lemma little_endian_words_last:
  assumes "length bs = 4 * n" "2 \<le> n" "length c8 = 8"
  shows "little_endian_words (take (4 * n - 8) bs @ c8)
       = (little_endian_words bs)[n - 2 := little_endian_value (take 4 c8),
                                   n - 1 := little_endian_value (drop 4 c8)]"
proof (rule nth_equalityI)
  define pre where "pre = take (4 * n - 8) bs"
  have lp: "length pre = 4 * n - 8" using assms by (simp add: pre_def)
  have ln: "length (pre @ c8) = 4 * n" using lp assms by simp
  show "length (little_endian_words (take (4 * n - 8) bs @ c8))
      = length ((little_endian_words bs)[n - 2 := little_endian_value (take 4 c8),
                                   n - 1 := little_endian_value (drop 4 c8)])"
    using ln assms by (simp add: little_endian_words_def pre_def[symmetric])
  fix k assume "k < length (little_endian_words (take (4 * n - 8) bs @ c8))"
  then have k: "k < n" using ln by (simp add: little_endian_words_def pre_def[symmetric])
  consider "k < n - 2" | "k = n - 2" | "k = n - 1" using k assms(2) by arith
  then have "little_endian_words (pre @ c8) ! k
      = (little_endian_words bs)[n - 2 := little_endian_value (take 4 c8),
                                   n - 1 := little_endian_value (drop 4 c8)] ! k"
  proof cases
    case 1
    then have le: "4 * k + 4 \<le> length pre" using lp by arith
    then have "take 4 (drop (4 * k) (pre @ c8)) = take 4 (drop (4 * k) pre)"
      by simp
    also have "\<dots> = take 4 (drop (4 * k) bs)"
      using le lp by (simp add: pre_def take_drop)
    finally show ?thesis using 1 k assms ln by (simp add: little_endian_words_def)
  next
    case 2
    then have "4 * k = length pre" using assms(2) lp by arith
    then have "take 4 (drop (4 * k) (pre @ c8)) = take 4 c8"
      by simp
    with 2 k assms ln show ?thesis by (simp add: little_endian_words_def)
  next
    case 3
    then have "4 * k = length pre + 4" using assms(2) lp by arith
    then have "take 4 (drop (4 * k) (pre @ c8)) = drop 4 c8"
      using assms(3) by simp
    with 3 k assms ln show ?thesis by (simp add: little_endian_words_def)
  qed
  then show "little_endian_words (take (4 * n - 8) bs @ c8) ! k
      = (little_endian_words bs)[n - 2 := little_endian_value (take 4 c8),
                                   n - 1 := little_endian_value (drop 4 c8)] ! k"
    by (simp add: pre_def)
qed


lemma preprocess_fold:
  assumes "ascii name" "m \<le> length name" "length name < 4 * n"
  shows "foldl (\<lambda>m i. m[i div 4 := m ! (i div 4) OR
                  swap_byte_order32 (push_bit ((4 - 1 - (i mod 4)) * 8) (uint32_of_char (name ! i)))])
           (replicate n 0) [0..<m]
       = little_endian_words (take m (bytes_of_name name) @ replicate (4 * n - m) 0)"
  using assms(2)
proof (induction m)
  case 0
  show ?case by (simp add: little_endian_words_zeros)
next
  case (Suc m)
  define bs where "bs = take m (bytes_of_name name) @ replicate (4 * n - m) (0 :: byte)"
  define c where "c = (of_char (name ! m) :: byte)"
  from Suc.prems have m: "m < length name" "m \<le> length name" by simp_all
  have lb: "length bs = 4 * n" using m assms(3) by (simp add: bs_def bytes_of_name_def)
  have zero: "bs ! m = 0" using m assms(3) by (simp add: bs_def nth_append bytes_of_name_def)
  have upd: "bs[m := c] = take (Suc m) (bytes_of_name name) @ replicate (4 * n - Suc m) 0"
  proof -
    have "replicate (4 * n - m) (0 :: byte) = 0 # replicate (4 * n - Suc m) 0"
      using m assms(3) by (cases "4 * n - m") (simp_all add: Suc_diff_Suc)
    moreover have "take (Suc m) (bytes_of_name name) = take m (bytes_of_name name) @ [c]"
      using m by (simp add: take_Suc_conv_app_nth bytes_of_name_def c_def)
    moreover have "length (take m (bytes_of_name name)) = m"
      using m by (simp add: bytes_of_name_def)
    ultimately show ?thesis
      by (simp add: bs_def list_update_append)
  qed
  have "(of_char (name ! m) :: nat) < 128"
    using assms(1) m by (simp add: ascii_def)
  then have contribution:
    "swap_byte_order32 (push_bit ((4 - 1 - (m mod 4)) * 8) (uint32_of_char (name ! m)))
       = push_bit (8 * (m mod 4)) (ucast c)"
    using swap_byte_order32_push_byte[of "m mod 4" c]
    by (simp add: ascii_uint32_of_char c_def)
  have "little_endian_words (bs[m := c])
      = (little_endian_words bs)[m div 4 :=
            little_endian_words bs ! (m div 4) OR push_bit (8 * (m mod 4)) (ucast c)]"
    using lb zero m assms(3) by (intro little_endian_words_update) simp_all
  with Suc.IH[OF m(2)] contribution upd show ?case
    by (simp add: bs_def[symmetric])
qed

lemma aligned_message_size:
  fixes len :: nat
  shows "((len + 1 + 8 + 63) div 64) * 64 = len + 9 + (64 - (len + 9) mod 64) mod 64"
proof -
  define q where "q = len + 9"
  define d where "d = q div 64"
  define r where "r = q mod 64"
  have q: "q = 64 * d + r" "r < 64" by (simp_all add: d_def r_def)
  have "(q + 63) div 64 * 64 = q + (64 - r) mod 64"
  proof (cases "r = 0")
    case True
    then show ?thesis using q by simp
  next
    case False
    then have "q + 63 = 64 * (d + 1) + (r - 1)" "r - 1 < 64" using q by simp_all
    then have "(q + 63) div 64 = (64 * (d + 1) + (r - 1)) div 64" by (simp only:)
    also have "\<dots> = d + 1" using \<open>r - 1 < 64\<close> by simp
    finally have "(q + 63) div 64 = d + 1" .
    then show ?thesis using q False by simp
  qed
  then show ?thesis by (simp add: q_def r_def add.commute add.left_commute)
qed


lemma preprocess_eq:
  assumes "ascii name"
  shows "preprocess name = little_endian_words (spec_padding (bytes_of_name name))"
proof -
  define len where "len = length name"
  define z where "z = (64 - (len + 9) mod 64) mod 64"
  define n where "n = (((len + 1 + 8) + 63) div 64) * 16"
  define ms where "ms = (of_nat (len * 8) :: 64 word)"
  define bytes where "bytes = bytes_of_name name"
  have lbytes: "length bytes = len" by (simp add: bytes_def bytes_of_name_def len_def)
  have n4: "4 * n = len + 9 + z"
    using aligned_message_size[of len] by (simp add: n_def z_def)
  have words: "((len + 1 + 8 + 63) div 64) * 64 div 4 = n"
    by (simp add: n_def)
  have n2: "2 \<le> n" using n4 by arith
  have lt: "len < 4 * n" using n4 by arith
  define b1 where "b1 = bytes @ replicate (4 * n - len) (0 :: byte)"
  define b2 where "b2 = bytes @ [0x80] @ replicate (4 * n - len - 1) (0 :: byte)"
  have m1: "foldl (\<lambda>m i. m[i div 4 := m ! (i div 4) OR
                  swap_byte_order32 (push_bit ((4 - 1 - (i mod 4)) * 8) (uint32_of_char (name ! i)))])
           (replicate n 0) [0..<len] = little_endian_words b1"
    using preprocess_fold[OF assms, of len n] lt lbytes
    by (simp add: len_def b1_def bytes_def)
  have lb1: "length b1 = 4 * n" using lt lbytes by (simp add: b1_def)
  have "b1 ! len = 0" using lt lbytes by (simp add: b1_def nth_append)
  then have "little_endian_words (b1[len := 0x80])
      = (little_endian_words b1)[len div 4 :=
            little_endian_words b1 ! (len div 4) OR push_bit (8 * (len mod 4)) (ucast (0x80 :: byte))]"
    using lb1 lt by (intro little_endian_words_update) simp_all
  moreover have "b1[len := 0x80] = b2"
  proof -
    have "replicate (4 * n - len) (0 :: byte) = 0 # replicate (4 * n - len - 1) 0"
      using lt by (cases "4 * n - len") simp_all
    then show ?thesis using lbytes by (simp add: b1_def b2_def list_update_append)
  qed
  moreover have "swap_byte_order32 (push_bit ((4 - 1 - (len mod 4)) * 8) 0x80)
      = push_bit (8 * (len mod 4)) (ucast (0x80 :: byte))"
    using swap_byte_order32_push_byte[of "len mod 4" "0x80"] by simp
  ultimately have m2: "(little_endian_words b1)[len div 4 :=
       little_endian_words b1 ! (len div 4) OR
       swap_byte_order32 (push_bit ((4 - 1 - (len mod 4)) * 8) 0x80)] = little_endian_words b2"
    by simp
  have lb2: "length b2 = 4 * n" using lt lbytes by (simp add: b2_def)
  have m4: "(little_endian_words b2)[n - 2 := swap_byte_order32 (ucast (drop_bit 32 ms)),
                                      n - 1 := swap_byte_order32 (ucast ms)]
        = little_endian_words (take (4 * n - 8) b2 @ rev (little_endian_bytes 8 ms))"
    using little_endian_words_last[OF lb2 n2, of "rev (little_endian_bytes 8 ms)"]
    by (simp add: big_endian_length_words little_endian_bytes_8)
  have "take (4 * n - 8) b2 = bytes @ [0x80] @ replicate z 0"
    using n4 lbytes by (simp add: b2_def)
  then have pad: "take (4 * n - 8) b2 @ rev (little_endian_bytes 8 ms)
      = spec_padding (bytes_of_name name)"
    using lbytes by (simp add: spec_padding_def ms_def z_def bytes_def mult.commute)
  have ms': "of_nat len * 8 = ms" by (simp add: ms_def)
  show ?thesis
    unfolding preprocess_def Let_def
    using m1 m2 m4 pad words
    by (simp add: len_def[symmetric] ms')
qed


lemma swap_byte_order64_bytes:
  "little_endian_bytes 8 (swap_byte_order64 w) = rev (little_endian_bytes 8 w)"
proof -
  have "(ucast (swap_byte_order64 w) :: byte) = ucast (drop_bit 56 w)"
    by (rule bit_word_eqI) (auto simp: swap_byte_order64_def bit_swap32 bit_simps ac_simps)
  moreover have "(ucast (drop_bit 8 (swap_byte_order64 w)) :: byte) = ucast (drop_bit 48 w)"
    by (rule bit_word_eqI) (auto simp: swap_byte_order64_def bit_swap32 bit_simps ac_simps)
  moreover have "(ucast (drop_bit 16 (swap_byte_order64 w)) :: byte) = ucast (drop_bit 40 w)"
    by (rule bit_word_eqI) (auto simp: swap_byte_order64_def bit_swap32 bit_simps ac_simps)
  moreover have "(ucast (drop_bit 24 (swap_byte_order64 w)) :: byte) = ucast (drop_bit 32 w)"
    by (rule bit_word_eqI) (auto simp: swap_byte_order64_def bit_swap32 bit_simps ac_simps)
  moreover have "(ucast (drop_bit 32 (swap_byte_order64 w)) :: byte) = ucast (drop_bit 24 w)"
    by (rule bit_word_eqI) (auto simp: swap_byte_order64_def bit_swap32 bit_simps ac_simps)
  moreover have "(ucast (drop_bit 40 (swap_byte_order64 w)) :: byte) = ucast (drop_bit 16 w)"
    by (rule bit_word_eqI) (auto simp: swap_byte_order64_def bit_swap32 bit_simps ac_simps)
  moreover have "(ucast (drop_bit 48 (swap_byte_order64 w)) :: byte) = ucast (drop_bit 8 w)"
    by (rule bit_word_eqI) (auto simp: swap_byte_order64_def bit_swap32 bit_simps ac_simps)
  moreover have "(ucast (drop_bit 56 (swap_byte_order64 w)) :: byte) = ucast w"
    by (rule bit_word_eqI) (auto simp: swap_byte_order64_def bit_swap32 bit_simps ac_simps)
  ultimately show ?thesis by (simp add: little_endian_bytes_8)
qed

lemma first_64_bits_bytes:
  fixes h0 h1 :: "32 word"
  shows "rev (little_endian_bytes 8 (push_bit 32 (ucast h0) OR ucast h1 :: 64 word))
       = rev (little_endian_bytes 4 h0) @ rev (little_endian_bytes 4 h1)"
proof -
  define w where "w = (push_bit 32 (ucast h0) OR ucast h1 :: 64 word)"
  have "(ucast w :: byte) = ucast h1"
    by (rule bit_word_eqI) (auto simp: w_def bit_simps)
  moreover have "(ucast (drop_bit 8 w) :: byte) = ucast (drop_bit 8 h1)"
    by (rule bit_word_eqI) (auto simp: w_def bit_simps)
  moreover have "(ucast (drop_bit 16 w) :: byte) = ucast (drop_bit 16 h1)"
    by (rule bit_word_eqI) (auto simp: w_def bit_simps)
  moreover have "(ucast (drop_bit 24 w) :: byte) = ucast (drop_bit 24 h1)"
    by (rule bit_word_eqI) (auto simp: w_def bit_simps)
  moreover have "(ucast (drop_bit 32 w) :: byte) = ucast h0"
    by (rule bit_word_eqI) (auto simp: w_def bit_simps dest: bit_imp_le_length)
  moreover have "(ucast (drop_bit 40 w) :: byte) = ucast (drop_bit 8 h0)"
    by (rule bit_word_eqI) (auto simp: w_def bit_simps dest: bit_imp_le_length)
  moreover have "(ucast (drop_bit 48 w) :: byte) = ucast (drop_bit 16 h0)"
    by (rule bit_word_eqI) (auto simp: w_def bit_simps dest: bit_imp_le_length)
  moreover have "(ucast (drop_bit 56 w) :: byte) = ucast (drop_bit 24 h0)"
    by (rule bit_word_eqI) (auto simp: w_def bit_simps dest: bit_imp_le_length)
  ultimately show ?thesis
    by (simp add: little_endian_bytes_8 little_endian_bytes_4 w_def[symmetric])
qed

lemma length_4_cases:
  assumes "length xs = 4"
  obtains a b c d where "xs = [a, b, c, d]"
  using assms by (auto simp: numeral_eq_Suc length_Suc_conv)

lemma spec_words_little_endian_words:
  assumes "4 dvd length bs"
  shows "map swap_byte_order32 (little_endian_words bs) = spec_words bs"
proof (rule nth_equalityI)
  show "length (map swap_byte_order32 (little_endian_words bs)) = length (spec_words bs)"
    by (simp add: little_endian_words_def spec_words_def)
next
  fix k assume "k < length (map swap_byte_order32 (little_endian_words bs))"
  then have k: "k < length bs div 4" by (simp add: little_endian_words_def)
  with assms have "4 * k + 4 \<le> length bs" by (auto elim!: dvdE)
  then have "length (take 4 (drop (4 * k) bs)) = 4" by simp
  then obtain a b c d where "take 4 (drop (4 * k) bs) = [a, b, c, d]"
    by (rule length_4_cases)
  with k show "map swap_byte_order32 (little_endian_words bs) ! k = spec_words bs ! k"
    by (simp add: little_endian_words_def spec_words_def swap_byte_order32_little_endian_value
          del: little_endian_value.simps)
qed

lemma length_spec_padding:
  "length (spec_padding bs) = ((length bs + 1 + 8 + 63) div 64) * 64"
proof -
  have "length (little_endian_bytes 8 w) = 8" for w :: "64 word"
    by (simp add: little_endian_bytes_8)
  then show ?thesis
    using aligned_message_size[of "length bs"] by (simp add: spec_padding_def)
qed

lemma preprocess_spec_words:
  assumes "ascii name"
  shows "preprocess name = map swap_byte_order32 (spec_words (spec_padding (bytes_of_name name)))"
proof -
  have "4 dvd length (spec_padding (bytes_of_name name))"
    by (simp add: length_spec_padding)
  from spec_words_little_endian_words[OF this, symmetric] preprocess_eq[OF assms]
  show ?thesis
    by (simp add: swap_byte_order32_involution comp_def)
qed

lemma schedule_steps:
  assumes "length block = 16" "d \<le> 64"
  defines "sw \<equiv> foldl (\<lambda>w j. w[j := swap_byte_order32 (rotate_left (swap_byte_order32
                (w ! (j - 3) XOR w ! (j - 8) XOR w ! (j - 14) XOR w ! (j - 16))) 1)])
              (map swap_byte_order32 block @ replicate 64 0) [16..<16 + d]"
    and "tw \<equiv> foldl (\<lambda>w t. w @ [word_rotl 1 (w ! (t - 3) XOR w ! (t - 8) XOR w ! (t - 14)
                XOR w ! (t - 16))]) block [16..<16 + d]"
  shows "length sw = 80 \<and> length tw = 16 + d \<and> take (16 + d) sw = map swap_byte_order32 tw"
  using assms(2) unfolding sw_def tw_def
proof (induction d)
  case 0
  with assms(1) show ?case by simp
next
  case (Suc d)
  define s where "s = foldl (\<lambda>w j. w[j := swap_byte_order32 (rotate_left (swap_byte_order32
                (w ! (j - 3) XOR w ! (j - 8) XOR w ! (j - 14) XOR w ! (j - 16))) 1)])
              (map swap_byte_order32 block @ replicate 64 0) [16..<16 + d]"
  define t where "t = foldl (\<lambda>w t. w @ [word_rotl 1 (w ! (t - 3) XOR w ! (t - 8) XOR w ! (t - 14)
                XOR w ! (t - 16))]) block [16..<16 + d]"
  define j where "j = 16 + d"
  from Suc have ih: "length s = 80" "length t = j" "take j s = map swap_byte_order32 t"
    by (simp_all add: s_def t_def j_def)
  have j: "16 \<le> j" "j < 80" using Suc.prems by (simp_all add: j_def)
  have nth: "s ! i = swap_byte_order32 (t ! i)" if "i < j" for i
  proof -
    have "s ! i = take j s ! i" using that by simp
    also have "\<dots> = swap_byte_order32 (t ! i)" using that ih by simp
    finally show ?thesis .
  qed
  define x where "x = t ! (j - 3) XOR t ! (j - 8) XOR t ! (j - 14) XOR t ! (j - 16)"
  have "s ! (j - 3) XOR s ! (j - 8) XOR s ! (j - 14) XOR s ! (j - 16) = swap_byte_order32 x"
    using j by (simp add: nth x_def swap_byte_order32_xor)
  then have v: "swap_byte_order32 (rotate_left (swap_byte_order32
                (s ! (j - 3) XOR s ! (j - 8) XOR s ! (j - 14) XOR s ! (j - 16))) 1)
              = swap_byte_order32 (word_rotl 1 x)"
    by (simp add: swap_byte_order32_involution rotate_left_word_rotl)
  have "16 + Suc d = Suc j" by (simp add: j_def)
  then have upt: "[16..<16 + Suc d] = [16..<16 + d] @ [j]"
    using j(1) by (simp only: upt_Suc_append j_def[symmetric])
  have "take (Suc j) (s[j := swap_byte_order32 (word_rotl 1 x)])
      = take j s @ [swap_byte_order32 (word_rotl 1 x)]"
    using ih(1) j by (simp add: take_Suc_conv_app_nth)
  then show ?case
    unfolding upt foldl_append s_def[symmetric] t_def[symmetric]
    using ih v by (simp add: x_def j_def)
qed


lemma extend_spec_schedule:
  assumes "length block = 16"
  shows "extend_words (map swap_byte_order32 block) = map swap_byte_order32 (spec_schedule block)"
    and "length (spec_schedule block) = 80"
proof -
  have e: "16 + 64 = (80 :: nat)" by simp
  note st = schedule_steps[OF assms order_refl, unfolded e]
  from st have l: "length (extend_words (map swap_byte_order32 block)) = 80"
    by (simp only: extend_words_def)
  from st have t: "take 80 (extend_words (map swap_byte_order32 block))
      = map swap_byte_order32 (spec_schedule block)"
    by (simp only: extend_words_def spec_schedule_def)
  from st show "length (spec_schedule block) = 80"
    by (simp only: spec_schedule_def)
  from l have "take 80 (extend_words (map swap_byte_order32 block))
      = extend_words (map swap_byte_order32 block)" by (intro take_all eq_imp_le)
  with t show "extend_words (map swap_byte_order32 block)
      = map swap_byte_order32 (spec_schedule block)" by (simp only:)
qed

lemma round_step_spec_round:
  assumes "j < 80" "length tw = 80"
  shows "round_step (map swap_byte_order32 tw) s j = spec_round tw s j"
proof -
  obtain a b c d e where s: "s = (a, b, c, d, e)" by (cases s)
  have w: "swap_byte_order32 (map swap_byte_order32 tw ! j) = tw ! j"
    using assms by (simp add: swap_byte_order32_involution)
  have r: "rotate_left a 5 = word_rotl 5 a" "rotate_left b 30 = word_rotl 30 b"
    by (simp_all add: rotate_left_word_rotl)
  consider "j \<le> 19" | "19 < j" "j \<le> 39" | "39 < j" "j \<le> 59" | "59 < j" by arith
  then show ?thesis
  proof cases
    case 1
    then show ?thesis
      using w by (simp add: s round_step_def spec_round_def r spec_f_def spec_k_def)
  next
    case 2
    then show ?thesis
      using w by (simp add: s round_step_def spec_round_def r spec_f_def spec_k_def)
  next
    case 3
    then show ?thesis
      using w by (simp add: s round_step_def spec_round_def r spec_f_def spec_k_def)
  next
    case 4
    then show ?thesis
      using w by (simp add: s round_step_def spec_round_def r spec_f_def spec_k_def)
  qed
qed


lemma rounds_spec_rounds:
  assumes "length tw = 80" "\<forall>j \<in> set js. j < 80"
  shows "foldl (round_step (map swap_byte_order32 tw)) s js = foldl (spec_round tw) s js"
  using assms(2)
  by (induction js arbitrary: s) (simp_all add: round_step_spec_round[OF _ assms(1)])



lemma process_chunk_spec_compress:
  assumes "length block = 16"
  shows "(case h of (h0, h1, h2, h3, h4) \<Rightarrow>
            case foldl (round_step (extend_words (map swap_byte_order32 block)))
                   (h0, h1, h2, h3, h4) [0..<80] of
              (a, b, c, d, e) \<Rightarrow> (h0 + a, h1 + b, h2 + c, h3 + d, h4 + e))
       = spec_compress h block"
proof -
  have below: "\<forall>j \<in> set [0..<80]. j < (80 :: nat)"
  proof (rule ballI)
    fix j :: nat assume "j \<in> set [0..<80]"
    then have "j \<in> {0..<80}" by (simp only: set_upt)
    then have "0 \<le> j \<and> j < 80" by (simp only: atLeastLessThan_iff)
    then show "j < 80" by (rule conjunct2)
  qed
  have rounds: "foldl (round_step (extend_words (map swap_byte_order32 block))) s [0..<80]
      = foldl (spec_round (spec_schedule block)) s [0..<80]" for s
    using rounds_spec_rounds[OF extend_spec_schedule(2)[OF assms] below, of s]
    by (simp only: extend_spec_schedule(1)[OF assms])
  obtain h0 h1 h2 h3 h4 where h: "h = (h0, h1, h2, h3, h4)" by (cases h)
  show ?thesis
    by (simp only: h spec_compress_def prod.case rounds)
qed

lemma process_chunk_block:
  assumes "i + 16 \<le> length ws"
  shows "process_chunk (map swap_byte_order32 ws) h i = spec_compress h (take 16 (drop i ws))"
proof -
  have len: "length (take 16 (drop i ws)) = 16" using assms by simp
  show ?thesis
    by (simp only: process_chunk_def Let_def take_map drop_map
          process_chunk_spec_compress[OF len])
qed

lemma chunks_spec_blocks:
  assumes "16 * n \<le> length ws"
  shows "foldl (process_chunk (map swap_byte_order32 ws)) h (map (\<lambda>c. 16 * c) [0..<n])
       = foldl spec_compress h (map (\<lambda>i. take 16 (drop (16 * i) ws)) [0..<n])"
  using assms
proof (induction n)
  case 0
  show ?case by simp
next
  case (Suc n)
  then have "16 * n + 16 \<le> length ws" "16 * n \<le> length ws" by simp_all
  with Suc.IH show ?case
    by (simp add: process_chunk_block)
qed

text \<open>
  Claim C3. For every ASCII name, \<open>make_id\<close> is the first 64 bits of the SHA-1 digest of
  the name, \<open>(h0 << 32) | h1\<close> of the final state after the padding with \<open>0x80\<close>, zeros and the
  64-bit big-endian bit length, with its bytes swapped; so the eight bytes of the
  identifier, least significant first, are the first eight bytes of the digest. \<open>make_id\<close>
  is a function of the name alone.
\<close>

theorem make_id_is_truncated_sha1:
  assumes "ascii name"
  shows "make_id name = swap_byte_order64 (spec_first_64_bits (bytes_of_name name))
    \<and> little_endian_bytes 8 (make_id name) = take 8 (spec_digest (bytes_of_name name))"
proof -
  define ws where "ws = spec_words (spec_padding (bytes_of_name name))"
  have pre: "preprocess name = map swap_byte_order32 ws"
    using preprocess_spec_words[OF assms] by (simp only: ws_def)
  have "16 * (length ws div 16) \<le> length ws" by simp
  from chunks_spec_blocks[OF this]
  have "foldl (process_chunk (map swap_byte_order32 ws))
          (0x67452301, 0xEFCDAB89, 0x98BADCFE, 0x10325476, 0xC3D2E1F0)
          (map (\<lambda>c. 16 * c) [0..<length (map swap_byte_order32 ws) div 16])
      = spec_sha1 (bytes_of_name name)"
    by (simp only: spec_sha1_def spec_blocks_def ws_def length_map)
  moreover obtain h0 h1 h2 h3 h4 where h: "spec_sha1 (bytes_of_name name) = (h0, h1, h2, h3, h4)"
    by (cases "spec_sha1 (bytes_of_name name)")
  ultimately have id: "make_id name = swap_byte_order64 (spec_first_64_bits (bytes_of_name name))"
    by (simp only: make_id_def Let_def pre spec_first_64_bits_def prod.case)
  have l4: "length (little_endian_bytes 4 x) = 4" for x :: "32 word"
    by (simp add: little_endian_bytes_4)
  have "little_endian_bytes 8 (make_id name) = take 8 (spec_digest (bytes_of_name name))"
    unfolding id
    by (simp add: swap_byte_order64_bytes spec_first_64_bits_def spec_digest_def h
          first_64_bits_bytes l4)
  with id show ?thesis by (rule conjI)
qed

theorem make_id_is_truncated_sha1_witness:
  "ascii ''v1::person''
   \<and> make_id ''v1::person'' = swap_byte_order64 (spec_first_64_bits (bytes_of_name ''v1::person''))
   \<and> little_endian_bytes 8 (make_id ''v1::person'')
       = take 8 (spec_digest (bytes_of_name ''v1::person''))"
proof -
  have a: "ascii ''v1::person''" by (simp add: ascii_def)
  from a make_id_is_truncated_sha1[OF a] show ?thesis by (rule conjI)
qed

text \<open>The definitions a run of the example environment unfolds.\<close>

lemmas example_simps =
  example_env_def example_classes_def std_string_def add_def emplace_def empty_registry_def
  new_memory_view_input_archive_def view_serialize_def view_serialize_binary_def copy_n_def
  load_size_def object_representation_def value_of_representation_def bytes_of_def items_of_def
  overload_resolution_def viable_loading_def viable_saving_def is_class_def is_fundamental_def
  is_enum_def sizeof_def size_in_bytes_def resize_def dynamic_cast_def

section \<open>The owning input archive erases what a call consumed\<close>

text \<open>
  Claim C9. Every top-level call of the owning input archive returns (with fuel for the
  input at hand); whether it returns normally (\<open>e = None\<close>) or throws, it leaves the vector
  without its first \<open>m_offset v\<close> bytes, \<open>v\<close> being the view as the load left it, these bytes
  are within the vector, and the offset is zero again; the next call reads the remaining
  vector from its first byte, as a new archive on it would.
\<close>

theorem memory_input_archive_cleanup:
  assumes "length (m_vector a) < 8 * fuel"
  shows "\<exists>e items' v.
      serialize_items_loading env fuel ts items (new_memory_view_input_archive (m_vector a))
        = Some (e, items', v)
    \<and> m_offset v \<le> length (m_vector a)
    \<and> memory_input_archive_call env fuel ts items a
        = Some (e, items', \<lparr>view = reset v, m_vector = drop (m_offset v) (m_vector a)\<rparr>)
    \<and> m_offset (reset v) = 0
    \<and> memory_input_archive_call env fuel2 ts2 items2
          \<lparr>view = reset v, m_vector = drop (m_offset v) (m_vector a)\<rparr>
        = memory_input_archive_call env fuel2 ts2 items2
            (new_memory_input_archive (drop (m_offset v) (m_vector a)))"
proof -
  define b where "b = new_memory_view_input_archive (m_vector a)"
  have "m_size b - m_offset b < 8 * fuel"
    using assms by (simp add: b_def new_memory_view_input_archive_def)
  from load_returns(2)[OF this] obtain e items' v where
    l: "serialize_items_loading env fuel ts items b = Some (e, items', v)"
    using prod_cases3 by metis
  from load_frame(2)[OF l] have "m_offset v \<le> length (m_vector a)"
    by (simp add: frame_def b_def new_memory_view_input_archive_def)
  with l show ?thesis
    unfolding b_def
    by (intro exI[of _ e] exI[of _ items'] exI[of _ v])
      (simp add: memory_input_archive_call_def erase_front_def reset_def
         new_memory_input_archive_def split: option.splits prod.splits)
qed

theorem memory_input_archive_cleanup_witness:
  "length (m_vector (new_memory_input_archive [1, 2, 3])) < 8 * 1
   \<and> memory_input_archive_call (example_env Little_endian 1 2) 1
         [Fundamental 2, Fundamental 4] [Scalar [0, 0], Scalar [0, 0, 0, 0]]
         (new_memory_input_archive [1, 2, 3])
       = Some (Some (Thrown Out_of_range), [Scalar [1, 2], Scalar [0, 0, 0, 0]],
               \<lparr>view = \<lparr>m_input = [1, 2, 3], m_size = 3, m_offset = 0\<rparr>, m_vector = [3]\<rparr>)"
  using memory_input_archive_cleanup [of "new_memory_input_archive [1, 2, 3]" 1
      "example_env Little_endian 1 2" "[Fundamental 2, Fundamental 4]"
      "[Scalar [0, 0], Scalar [0, 0, 0, 0]]" 1 "[]" "[]"]
  by (simp add: memory_input_archive_call_def new_memory_input_archive_def
        new_memory_view_input_archive_def view_serialize_def copy_n_def bytes_of_def
        erase_front_def reset_def)

section \<open>Saving a handle that holds nothing\<close>

lemma length_resize: "length (resize n d xs) = n"
  by (simp add: resize_def)

lemma resize_same: "length xs = n \<Longrightarrow> resize n d xs = xs"
  by (simp add: resize_def)

text \<open>
  Claim C5. Saving a \<open>unique_ptr\<close> or \<open>shared_ptr\<close> (\<open>k\<close>), polymorphic or not, that holds
  nothing throws the null pointer error and leaves the archive as it was, so no byte is
  written. The top-level call then only fits the vector to the bytes in use: its length
  is \<open>m_used\<close>, and the vector is unchanged when its length was \<open>m_used\<close> already, which
  holds for a new archive and after every top-level call.
\<close>

theorem null_handle_rejected:
  "serialize_item_saving env (Owning k t) (Handle None) a
     = (Some (Thrown Attempt_to_serialize_null_pointer_error), a)
   \<and> serialize_item_saving env (Owning_polymorphic k c) (Handle None) a
     = (Some (Thrown Attempt_to_serialize_null_pointer_error), a)
   \<and> memory_output_archive_call env [Owning k t] [Handle None] a
     = (Some (Thrown Attempt_to_serialize_null_pointer_error), fit_vector a)
   \<and> memory_output_archive_call env [Owning_polymorphic k c] [Handle None] a
     = (Some (Thrown Attempt_to_serialize_null_pointer_error), fit_vector a)
   \<and> length (m_output (fit_vector a)) = m_used a
   \<and> m_used (fit_vector a) = m_used a
   \<and> (length (m_output a) = m_used a \<longrightarrow> fit_vector a = a)
   \<and> length (m_output (new_memory_output_archive output)) = m_used (new_memory_output_archive output)
   \<and> length (m_output (snd (memory_output_archive_call env ts items a)))
       = m_used (snd (memory_output_archive_call env ts items a))"
  by (simp add: memory_output_archive_call_def fit_vector_def length_resize resize_same
        new_memory_output_archive_def split: prod.splits)

theorem null_handle_rejected_witness:
  "length (m_output (new_memory_output_archive [1, 2, 3])) = m_used (new_memory_output_archive [1, 2, 3])
   \<and> memory_output_archive_call (example_env Little_endian 1 2)
         [Owning_polymorphic Shared_ptr ''person''] [Handle None] (new_memory_output_archive [1, 2, 3])
       = (Some (Thrown Attempt_to_serialize_null_pointer_error), new_memory_output_archive [1, 2, 3])"
  using null_handle_rejected [of "example_env Little_endian 1 2" Shared_ptr "Fundamental 1"
      "new_memory_output_archive [1, 2, 3]" "''person''" "[]" "[]" "[]"]
  by (simp add: new_memory_output_archive_def)

section \<open>A polymorphic load of a type the handle cannot hold\<close>

text \<open>
  Claim C7. When the registry has loaded an object of the registered class \<open>d\<close> and
  \<open>dynamic_cast\<close> cannot convert \<open>d\<close> to the class \<open>c\<close> of the handle, the load throws the type
  mismatch error, the caller's handle \<open>object\<close> is as before, and the loaded object is the
  one object deleted.
\<close>

theorem polymorphic_downcast_failure:
  assumes "registry_serialize_loading env fuel None a = Some (None, Some (Poly d self), a')"
    and "\<not> dynamic_cast env d c"
  shows "serialize_item_loading env fuel (Owning_polymorphic k c) object a
           = Some (Some (Thrown Polymorphic_type_mismatch_error), object, a')
    \<and> downcast_and_transfer env c object (Some (Poly d self))
           = (Some (Thrown Polymorphic_type_mismatch_error), object, [Poly d self])"
  using assms by (simp add: downcast_and_transfer_def)

theorem polymorphic_downcast_failure_witness:
  "registry_serialize_loading (example_env Little_endian 1 2) 1 None
       (new_memory_view_input_archive [1, 0, 0, 0, 0, 0, 0, 0, 1, 0, 0, 0, 88])
     = Some (None, Some (Poly ''person'' [Items [Scalar [88]]]),
             \<lparr>m_input = [1, 0, 0, 0, 0, 0, 0, 0, 1, 0, 0, 0, 88], m_size = 13, m_offset = 13\<rparr>)
   \<and> \<not> dynamic_cast (example_env Little_endian 1 2) ''person'' ''student''
   \<and> serialize_item_loading (example_env Little_endian 1 2) 1
         (Owning_polymorphic Unique_ptr ''student'') (Handle None)
         (new_memory_view_input_archive [1, 0, 0, 0, 0, 0, 0, 0, 1, 0, 0, 0, 88])
     = Some (Some (Thrown Polymorphic_type_mismatch_error), Handle None,
             \<lparr>m_input = [1, 0, 0, 0, 0, 0, 0, 0, 1, 0, 0, 0, 88], m_size = 13, m_offset = 13\<rparr>)"
proof -
  have h1: "registry_serialize_loading (example_env Little_endian 1 2) 1 None
       (new_memory_view_input_archive [1, 0, 0, 0, 0, 0, 0, 0, 1, 0, 0, 0, 88])
     = Some (None, Some (Poly ''person'' [Items [Scalar [88]]]),
             \<lparr>m_input = [1, 0, 0, 0, 0, 0, 0, 0, 1, 0, 0, 0, 88], m_size = 13, m_offset = 13\<rparr>)"
    by (simp add: example_simps)
  have h2: "\<not> dynamic_cast (example_env Little_endian 1 2) ''person'' ''student''"
    by (simp add: example_simps)
  from polymorphic_downcast_failure[OF h1 h2] h1 h2 show ?thesis by simp
qed

section \<open>The overloads for resizable containers\<close>

text \<open>
  Claim C8, at a container with random access iterators, fundamental elements and no
  \<open>data()\<close> member function, such as \<open>std::deque<int>\<close>: saving selects the overload that
  saves item by item; loading has no viable overload.
\<close>

theorem resizable_loading_has_no_fallback:
  "overload_resolution (viable_saving True False (Fundamental n)) = Some Per_element
   \<and> overload_resolution (viable_loading True False (Fundamental n)) = None
   \<and> overload_resolution (viable_saving True False (Enumeration n)) = Some Per_element
   \<and> overload_resolution (viable_loading True False (Enumeration n)) = None
   \<and> serialize_item_loading env fuel (Resizable True False (Fundamental n)) item a
       = Some (Some No_viable_overload, item, a)"
  by (simp add: overload_resolution_def viable_saving_def viable_loading_def is_class_def
        is_fundamental_def is_enum_def)

theorem resizable_loading_has_no_fallback_witness:
  "overload_resolution (viable_saving True False (Fundamental 4)) = Some Per_element
   \<and> overload_resolution (viable_loading True False (Fundamental 4)) = None
   \<and> serialize_item_loading (example_env Little_endian 1 2) 1
         (Resizable True False (Fundamental 4)) (Items [])
         (new_memory_view_input_archive [1, 0, 0, 0, 7, 0, 0, 0])
       = Some (Some No_viable_overload, Items [],
               new_memory_view_input_archive [1, 0, 0, 0, 7, 0, 0, 0])"
  using resizable_loading_has_no_fallback [of 4 "example_env Little_endian 1 2" 1 "Items []"
      "new_memory_view_input_archive [1, 0, 0, 0, 7, 0, 0, 0]"]
  by simp

section \<open>A save appends\<close>

lemma written_new: "written (new_memory_output_archive []) = []"
  by (simp add: written_def new_memory_output_archive_def resize_def)

lemma length_object_bytes: "length (object_bytes n item) = n"
  by (simp add: object_bytes_def)

lemma written_lazy_serialize:
  "written (lazy_serialize n item a) = written a @ object_bytes n item"
proof -
  define out where "out = (if m_used a + n > length (m_output a)
                    then resize ((m_used a + n) * 3 div 2) 0 (m_output a)
                    else m_output a)"
  have grow: "k \<le> k * 3 div 2" for k :: nat by arith
  have len: "m_used a + n \<le> length out"
    using grow[of "m_used a + n"] by (simp add: out_def resize_def del: distrib_right_numeral)
  have pre: "take (m_used a) out = written a"
    by (auto simp: out_def resize_def written_def min_def)
  have "written (lazy_serialize n item a)
        = resize (m_used a + n) 0 (take (m_used a) out @ object_bytes n item @ drop (m_used a + n) out)"
    by (simp add: lazy_serialize_def written_def out_def Let_def)
  also have "\<dots> = take (m_used a) out @ object_bytes n item"
    using len by (simp add: resize_def length_object_bytes min_def)
  finally show ?thesis by (simp add: pre)
qed

lemma appendsD:
  assumes "appends f"
  shows "fst (f a) = fst (f (new_memory_output_archive []))"
    and "written (snd (f a)) = written a @ written (snd (f (new_memory_output_archive [])))"
  using assms unfolding appends_def by blast+

lemma appends_const: "appends (\<lambda>a. (e, a))"
  by (simp add: appends_def written_new)

lemma appends_lazy:
  assumes g: "appends g"
  shows "appends (\<lambda>a. g (lazy_serialize n item a))"
  unfolding appends_def
proof (intro allI conjI)
  fix a
  let ?e = "new_memory_output_archive []"
  show "fst (g (lazy_serialize n item a)) = fst (g (lazy_serialize n item ?e))"
    by (simp only: appendsD(1)[OF g, of "lazy_serialize n item a"]
        appendsD(1)[OF g, of "lazy_serialize n item ?e"])
  show "written (snd (g (lazy_serialize n item a)))
        = written a @ written (snd (g (lazy_serialize n item ?e)))"
    by (simp only: appendsD(2)[OF g, of "lazy_serialize n item a"]
        appendsD(2)[OF g, of "lazy_serialize n item ?e"]
        written_lazy_serialize written_new append_Nil append_assoc)
qed

lemma appends_seq:
  assumes f: "appends f" and g: "fst (f a0) = None \<Longrightarrow> appends g"
  shows "appends (\<lambda>a. case f a of (Some e, a') \<Rightarrow> (Some e, a') | (None, a') \<Rightarrow> g a')"
proof -
  let ?e = "new_memory_output_archive []"
  note ff = appendsD(1)[OF f]
  note fw = appendsD(2)[OF f]
  show ?thesis
  proof (cases "fst (f ?e)")
    case (Some e)
    have "(case f b of (Some e, a') \<Rightarrow> (Some e, a') | (None, a') \<Rightarrow> g a') = f b" for b
      using ff[of b] Some by (cases "f b") auto
    then show ?thesis by (simp only: f)
  next
    case None
    then have "fst (f a0) = None" using ff[of a0] by simp
    note gg = g[OF this]
    have eq: "(case f b of (Some e, a') \<Rightarrow> (Some e, a') | (None, a') \<Rightarrow> g a') = g (snd (f b))" for b
      using ff[of b] None by (cases "f b") auto
    show ?thesis
      unfolding appends_def eq
    proof (intro allI conjI)
      fix a
      show "fst (g (snd (f a))) = fst (g (snd (f ?e)))"
        by (simp only: appendsD(1)[OF gg, of "snd (f a)"] appendsD(1)[OF gg, of "snd (f ?e)"])
      show "written (snd (g (snd (f a)))) = written a @ written (snd (g (snd (f ?e))))"
        by (simp only: appendsD(2)[OF gg, of "snd (f a)"] appendsD(2)[OF gg, of "snd (f ?e)"]
            fw[of a] written_new append_Nil append_assoc)
    qed
  qed
qed

lemma save_appends:
  fixes a :: lazy_vector_memory_output_archive
  shows "appends (serialize_item_saving env t v)"
    and "appends (serialize_items_saving env ts vs)"
    and "appends (serialize_each_saving env t vs)"
    and "appends (registry_serialize_saving env v)"
proof (induct env t v a and env ts vs a and env t vs a and env v a
    rule: serialize_item_saving_serialize_items_saving_serialize_each_saving_registry_serialize_saving.induct)
  case (1 env n v a)
  show ?case
    by (cases v) (simp_all add: appends_def written_lazy_serialize written_new)
next
  case (2 env n v a)
  show ?case
    by (cases v) (simp_all add: appends_def written_lazy_serialize written_new)
next
  case (3 env ra dm t v a)
  show ?case
  proof (cases v)
    case (Items xs)
    show ?thesis
    proof (cases "overload_resolution (viable_saving ra dm t)")
      case None
      then show ?thesis using Items by (simp add: appends_def written_new)
    next
      case (Some p)
      show ?thesis
      proof (cases p)
        case Per_element
        have eq: "serialize_item_saving env (Resizable ra dm t) v
                  = (\<lambda>a. serialize_each_saving env t xs
                       (lazy_serialize 4 (object_representation (host env) 4
                          (of_nat (length xs) :: size_type)) a))"
          using Items Some Per_element by (simp add: fun_eq_iff)
        from 3[OF Items Some Per_element]
        have "appends (serialize_each_saving env t xs)" .
        from appends_lazy[OF this, of 4 "object_representation (host env) 4
                          (of_nat (length xs) :: size_type)"]
        show ?thesis by (simp only: eq)
      next
        case Contiguous
        show ?thesis
          using Items Some Contiguous
          by (simp add: appends_def Let_def written_lazy_serialize written_new
              lazy_serialize_binary_def)
      qed
    qed
  qed (simp_all add: appends_def written_new)
next
  case (4 env t v a)
  show ?case
  proof (cases v)
    case (Items xs)
    have eq: "serialize_item_saving env (Associative t) v
              = (\<lambda>a. serialize_each_saving env t xs
                   (lazy_serialize 4 (object_representation (host env) 4
                      (of_nat (length xs) :: size_type)) a))"
      using Items by (simp add: fun_eq_iff)
    from 4[OF Items] have "appends (serialize_each_saving env t xs)" .
    from appends_lazy[OF this, of 4 "object_representation (host env) 4
                          (of_nat (length xs) :: size_type)"]
    show ?thesis by (simp only: eq)
  qed (simp_all add: appends_def written_new)
next
  case (5 env n t v a)
  show ?case
  proof (cases v)
    case (Items xs)
    have eq: "serialize_item_saving env (Array n t) v = serialize_each_saving env t xs"
      using Items by (simp add: fun_eq_iff)
    from 5[OF Items] show ?thesis by (simp only: eq)
  qed (simp_all add: appends_def written_new)
next
  case (6 env t1 t2 v a)
  show ?case
  proof (cases v)
    case (Items xs)
    have eq: "serialize_item_saving env (Pair t1 t2) v = serialize_items_saving env [t1, t2] xs"
      using Items by (simp add: fun_eq_iff)
    from 6[OF Items] show ?thesis by (simp only: eq)
  qed (simp_all add: appends_def written_new)
next
  case (7 env ts v a)
  show ?case
  proof (cases v)
    case (Items xs)
    have eq: "serialize_item_saving env (Tuple ts) v = serialize_items_saving env ts xs"
      using Items by (simp add: fun_eq_iff)
    from 7[OF Items] show ?thesis by (simp only: eq)
  qed (simp_all add: appends_def written_new)
next
  case (8 env ts v a)
  show ?case
  proof (cases v)
    case (Items xs)
    have eq: "serialize_item_saving env (Class ts) v = serialize_items_saving env ts xs"
      using Items by (simp add: fun_eq_iff)
    from 8[OF Items] show ?thesis by (simp only: eq)
  qed (simp_all add: appends_def written_new)
next
  case (9 env k t v a)
  show ?case
  proof (cases v)
    case (Handle h)
    show ?thesis
    proof (cases h)
      case None
      then show ?thesis using Handle by (simp add: appends_def written_new)
    next
      case (Some object)
      have eq: "serialize_item_saving env (Owning k t) v = serialize_item_saving env t object"
        using Handle Some by (simp add: fun_eq_iff)
      from 9[OF Handle Some] show ?thesis by (simp only: eq)
    qed
  qed (simp_all add: appends_def written_new)
next
  case (10 env k c v a)
  show ?case
  proof (cases v)
    case (Handle h)
    show ?thesis
    proof (cases h)
      case None
      then show ?thesis using Handle by (simp add: appends_def written_new)
    next
      case (Some object)
      have eq: "serialize_item_saving env (Owning_polymorphic k c) v
                = registry_serialize_saving env object"
        using Handle Some by (simp add: fun_eq_iff)
      from 10[OF Handle Some] show ?thesis by (simp only: eq)
    qed
  qed (simp_all add: appends_def written_new)
next
  case (11 env c v a)
  have eq: "serialize_item_saving env (Polymorphic_wrapper c) v = registry_serialize_saving env v"
    by (simp add: fun_eq_iff)
  from 11 show ?case by (simp only: eq)
next
  case (12 env vs a)
  show ?case by (simp add: appends_def written_new)
next
  case (13 env t ts a)
  show ?case by (simp add: appends_def written_new)
next
  case (14 env t ts first items a)
  have eq: "serialize_items_saving env (t # ts) (first # items)
            = (\<lambda>a. case serialize_item_saving env t first a of
                       (Some e, a') \<Rightarrow> (Some e, a')
                     | (None, a') \<Rightarrow> serialize_items_saving env ts items a')"
    by (simp add: fun_eq_iff)
  have "fst (serialize_item_saving env t first a) = None
        \<Longrightarrow> appends (serialize_items_saving env ts items)"
    by (rule 14(2)[OF prod.collapse])
  from appends_seq[OF 14(1) this] show ?case by (simp only: eq)
next
  case (15 env t a)
  show ?case by (simp add: appends_def written_new)
next
  case (16 env t item container a)
  have eq: "serialize_each_saving env t (item # container)
            = (\<lambda>a. case serialize_item_saving env t item a of
                       (Some e, a') \<Rightarrow> (Some e, a')
                     | (None, a') \<Rightarrow> serialize_each_saving env t container a')"
    by (simp add: fun_eq_iff)
  have "fst (serialize_item_saving env t item a) = None
        \<Longrightarrow> appends (serialize_each_saving env t container)"
    by (rule 16(2)[OF prod.collapse])
  from appends_seq[OF 16(1) this] show ?case by (simp only: eq)
next
  case (17 env v a)
  show ?case
  proof (cases v)
    case (Poly d self)
    show ?thesis
    proof (cases "m_type_information_to_serialization_id (saving_registry env) d")
      case None
      then show ?thesis using Poly by (simp add: appends_def written_new)
    next
      case (Some ident)
      note id = this
      show ?thesis
      proof (cases "m_serialization_id_to_method (saving_registry env) ident")
        case None
        then show ?thesis using Poly id by (simp add: appends_def written_new)
      next
        case (Some m)
        show ?thesis
        proof (cases "dynamic_cast env d m")
          case True
          have eq: "registry_serialize_saving env v
                    = (\<lambda>a. serialize_items_saving env (members (classes env m)) self
                         (lazy_serialize 8 (object_representation (host env) 8 ident) a))"
            using Poly id Some True by (simp add: fun_eq_iff)
          from 17[OF Poly id Some refl True]
          have "appends (serialize_items_saving env (members (classes env m)) self)" .
          from appends_lazy[OF this, of 8 "object_representation (host env) 8 ident"]
          show ?thesis by (simp only: eq)
        next
          case False
          then show ?thesis using Poly id Some
            by (simp add: appends_def Let_def written_lazy_serialize written_new)
        qed
      qed
    qed
  qed (simp_all add: appends_def written_new)
qed

section \<open>Object representations and reads of a view\<close>

lemma length_little_endian_bytes: "length (little_endian_bytes n w) = n"
  by (induction n arbitrary: w) simp_all

lemma length_object_representation: "length (object_representation e n w) = n"
  by (cases e) (simp_all add: object_representation_def length_little_endian_bytes)

lemma little_endian_value_bytes:
  "(little_endian_value (little_endian_bytes n w) :: 'a::len word) = take_bit (8 * n) w"
proof (induction n arbitrary: w)
  case 0
  show ?case by simp
next
  case (Suc n)
  have "(ucast (ucast w :: byte) :: 'a word) OR push_bit 8 (take_bit (8 * n) (drop_bit 8 w))
        = take_bit (8 * Suc n) w"
  proof (rule bit_word_eqI)
    fix k assume "k < LENGTH('a)"
    then show "bit ((ucast (ucast w :: byte) :: 'a word) OR push_bit 8 (take_bit (8 * n) (drop_bit 8 w))) k
               = bit (take_bit (8 * Suc n) w) k"
      by (cases "k < 8") (auto simp: bit_simps)
  qed
  then show ?case by (simp add: Suc)
qed

lemma value_of_object_representation:
  "LENGTH('a) \<le> 8 * n \<Longrightarrow>
   value_of_representation e (object_representation e n w) = (w :: 'a::len word)"
  by (cases e)
     (simp_all add: value_of_representation_def object_representation_def
        little_endian_value_bytes take_bit_word_eq_self)

lemma view_serialize_view_at:
  "view_serialize (length bs) item (view_at (pre @ bs @ post) (length pre))
   = (None, bs, view_at (pre @ bs @ post) (length pre + length bs))"
  by (simp add: view_serialize_def view_at_def copy_n_def)

lemma load_size_view_at:
  "load_size env (view_at (pre @ object_representation (host env) 4 (w :: size_type) @ post) (length pre))
   = (None, w, view_at (pre @ object_representation (host env) 4 w @ post) (length pre + 4))"
  using view_serialize_view_at[of "object_representation (host env) 4 w"
      "object_representation (host env) 4 (0 :: size_type)" pre post]
  by (simp add: load_size_def length_object_representation value_of_object_representation)

lemma split_items_concat:
  "\<forall>x \<in> set xs. \<exists>bs. x = Scalar bs \<and> length bs = n \<Longrightarrow>
   split_items n (length xs) (concat (map bytes_of xs) @ rest) = xs"
  by (induction xs) (auto simp: bytes_of_def)

lemma length_concat_bytes:
  "\<forall>x \<in> set xs. \<exists>bs. x = Scalar bs \<and> length bs = n \<Longrightarrow>
   length (concat (map bytes_of xs)) = length xs * n"
  by (induction xs) (auto simp: bytes_of_def)

lemma overload_resolution_loading_saving:
  "overload_resolution (viable_loading ra dm t) = Some p \<Longrightarrow>
   overload_resolution (viable_saving ra dm t) = Some p"
  by (auto simp: overload_resolution_def viable_loading_def viable_saving_def
      split: if_splits list.splits)

lemma view_serialize_binary_view_at:
  "unat sz = length bs \<Longrightarrow>
   view_serialize_binary sz data (view_at (pre @ bs @ post) (length pre))
   = (None, bs @ drop (length bs) data, view_at (pre @ bs @ post) (length pre + length bs))"
  by (simp add: view_serialize_binary_def view_at_def copy_n_def)

section \<open>Round trip\<close>

lemma object_bytes_exact: "length bs = n \<Longrightarrow> object_bytes n bs = bs"
  by (simp add: object_bytes_def)

lemma view_serialize_view_at_n:
  "length bs = n \<Longrightarrow>
   view_serialize n item (view_at (pre @ bs @ post) (length pre))
   = (None, bs, view_at (pre @ bs @ post) (length pre + n))"
  using view_serialize_view_at[of bs item pre post] by simp

lemma saved_after_lazy:
  assumes g: "appends g"
  shows "fst (g (lazy_serialize n item (new_memory_output_archive [])))
         = fst (g (new_memory_output_archive []))"
    and "written (snd (g (lazy_serialize n item (new_memory_output_archive []))))
         = object_bytes n item @ written (snd (g (new_memory_output_archive [])))"
  by (simp_all only: appendsD(1)[OF g, of "lazy_serialize n item (new_memory_output_archive [])"]
      appendsD(2)[OF g, of "lazy_serialize n item (new_memory_output_archive [])"]
      written_lazy_serialize written_new append_Nil)

lemma saved_after_item:
  assumes f: "fst (serialize_item_saving env t x (new_memory_output_archive [])) = None"
    and g: "appends g"
  shows "fst (case serialize_item_saving env t x (new_memory_output_archive []) of
                (Some e, a') \<Rightarrow> (Some e, a') | (None, a') \<Rightarrow> g a')
         = fst (g (new_memory_output_archive []))"
    and "written (snd (case serialize_item_saving env t x (new_memory_output_archive []) of
                (Some e, a') \<Rightarrow> (Some e, a') | (None, a') \<Rightarrow> g a'))
         = saved env t x @ written (snd (g (new_memory_output_archive [])))"
proof -
  let ?e = "new_memory_output_archive []"
  let ?a = "snd (serialize_item_saving env t x ?e)"
  have eq: "(case serialize_item_saving env t x ?e of
                (Some e, a') \<Rightarrow> (Some e, a') | (None, a') \<Rightarrow> g a') = g ?a"
    using f by (cases "serialize_item_saving env t x ?e") auto
  show "fst (case serialize_item_saving env t x ?e of
                (Some e, a') \<Rightarrow> (Some e, a') | (None, a') \<Rightarrow> g a') = fst (g ?e)"
    by (simp only: eq appendsD(1)[OF g, of ?a])
  show "written (snd (case serialize_item_saving env t x ?e of
                (Some e, a') \<Rightarrow> (Some e, a') | (None, a') \<Rightarrow> g a'))
         = saved env t x @ written (snd (g ?e))"
    by (simp only: eq appendsD(2)[OF g, of ?a] saved_def)
qed

lemma saved_items_Cons:
  assumes "fst (serialize_item_saving env t x (new_memory_output_archive [])) = None"
  shows "fst (serialize_items_saving env (t # ts) (x # xs) (new_memory_output_archive []))
         = fst (serialize_items_saving env ts xs (new_memory_output_archive []))"
    and "saved_items env (t # ts) (x # xs) = saved env t x @ saved_items env ts xs"
  using saved_after_item[OF assms save_appends(2)[of env ts xs]]
  by (simp_all add: saved_items_def)

lemma saved_each_Cons:
  assumes "fst (serialize_item_saving env t x (new_memory_output_archive [])) = None"
  shows "fst (serialize_each_saving env t (x # xs) (new_memory_output_archive []))
         = fst (serialize_each_saving env t xs (new_memory_output_archive []))"
    and "saved_each env t (x # xs) = saved env t x @ saved_each env t xs"
  using saved_after_item[OF assms save_appends(3)[of env t xs]]
  by (simp_all add: saved_each_def)

lemma saved_each_Nil: "saved_each env t [] = []"
  by (simp add: saved_each_def written_new)

lemma saved_items_Nil: "saved_items env [] [] = []"
  by (simp add: saved_items_def written_new)

lemma round_tripsD:
  assumes "round_trips env t v"
  shows "fst (serialize_item_saving env t v (new_memory_output_archive [])) = None"
    and "length (saved env t v @ post) < 8 * fuel \<Longrightarrow>
         serialize_item_loading env fuel t (default_val t)
             (view_at (pre @ saved env t v @ post) (length pre))
           = Some (None, v,
                   view_at (pre @ saved env t v @ post) (length pre + length (saved env t v)))"
  using assms unfolding round_trips_def by blast+

lemma round_trips_itemsD:
  assumes "round_trips_items env ts vs"
  shows "fst (serialize_items_saving env ts vs (new_memory_output_archive [])) = None"
    and "length (saved_items env ts vs @ post) < 8 * fuel \<Longrightarrow>
         serialize_items_loading env fuel ts (map default_val ts)
             (view_at (pre @ saved_items env ts vs @ post) (length pre))
           = Some (None, vs,
                   view_at (pre @ saved_items env ts vs @ post)
                     (length pre + length (saved_items env ts vs)))"
  using assms unfolding round_trips_items_def by blast+

lemma each_round_trips:
  assumes "\<forall>x \<in> set xs. round_trips env t x"
  shows "fst (serialize_each_saving env t xs (new_memory_output_archive [])) = None
         \<and> (length (saved_each env t xs @ post) < 8 * fuel \<longrightarrow>
            serialize_each_loading env fuel t (replicate (length xs) (default_val t))
                (view_at (pre @ saved_each env t xs @ post) (length pre))
              = Some (None, xs,
                      view_at (pre @ saved_each env t xs @ post)
                        (length pre + length (saved_each env t xs))))"
  using assms
proof (induction xs arbitrary: pre)
  case Nil
  show ?case by (simp add: saved_each_Nil)
next
  case (Cons x xs)
  from Cons.prems have rx: "round_trips env t x" and rxs: "\<forall>x \<in> set xs. round_trips env t x"
    by simp_all
  note sx = round_tripsD(1)[OF rx]
  note eqs = saved_each_Cons[OF sx, of xs]
  have s: "fst (serialize_each_saving env t (x # xs) (new_memory_output_archive [])) = None"
    using Cons.IH[OF rxs, where pre = pre] by (simp only: eqs(1))
  have l: "serialize_each_loading env fuel t (replicate (length (x # xs)) (default_val t))
                (view_at (pre @ saved_each env t (x # xs) @ post) (length pre))
              = Some (None, x # xs,
                      view_at (pre @ saved_each env t (x # xs) @ post)
                        (length pre + length (saved_each env t (x # xs))))"
    if len: "length (saved_each env t (x # xs) @ post) < 8 * fuel"
  proof -
    have l1: "serialize_item_loading env fuel t (default_val t)
             (view_at (pre @ saved env t x @ saved_each env t xs @ post) (length pre))
           = Some (None, x,
                   view_at (pre @ saved env t x @ saved_each env t xs @ post)
                     (length pre + length (saved env t x)))"
      using round_tripsD(2)[OF rx, of "saved_each env t xs @ post" fuel pre] len
      by (simp add: eqs(2))
    have l2: "serialize_each_loading env fuel t (replicate (length xs) (default_val t))
                (view_at (pre @ saved env t x @ saved_each env t xs @ post)
                   (length pre + length (saved env t x)))
              = Some (None, xs,
                      view_at (pre @ saved env t x @ saved_each env t xs @ post)
                        (length pre + length (saved env t x) + length (saved_each env t xs)))"
      using Cons.IH[OF rxs, where pre = "pre @ saved env t x"] len
      by (simp add: eqs(2))
    show ?thesis
      by (simp add: eqs(2) l1 l2 add.assoc)
  qed
  from s l show ?case by blast
qed

lemma insert_each_round_trips:
  assumes "\<forall>x \<in> set xs. round_trips env t x"
    and "length (saved_each env t xs @ post) < 8 * fuel"
  shows "insert_each_loading env fuel t (length xs) container
                (view_at (pre @ saved_each env t xs @ post) (length pre))
              = Some (None, foldl (\<lambda>container item. container_insert env item container) container xs,
                      view_at (pre @ saved_each env t xs @ post)
                        (length pre + length (saved_each env t xs)))"
  using assms
proof (induction xs arbitrary: pre container)
  case Nil
  show ?case by (simp add: saved_each_Nil)
next
  case (Cons x xs)
  from Cons.prems have rx: "round_trips env t x" and rxs: "\<forall>x \<in> set xs. round_trips env t x"
    by simp_all
  note sx = round_tripsD(1)[OF rx]
  note eqs = saved_each_Cons[OF sx, of xs]
  note len = Cons.prems(2)
  have l1: "serialize_item_loading env fuel t (default_val t)
           (view_at (pre @ saved env t x @ saved_each env t xs @ post) (length pre))
         = Some (None, x,
                 view_at (pre @ saved env t x @ saved_each env t xs @ post)
                   (length pre + length (saved env t x)))"
    using round_tripsD(2)[OF rx, of "saved_each env t xs @ post" fuel pre] len
    by (simp add: eqs(2))
  have l2: "insert_each_loading env fuel t (length xs) (container_insert env x container)
              (view_at (pre @ saved env t x @ saved_each env t xs @ post)
                 (length pre + length (saved env t x)))
            = Some (None, foldl (\<lambda>container item. container_insert env item container)
                            (container_insert env x container) xs,
                    view_at (pre @ saved env t x @ saved_each env t xs @ post)
                      (length pre + length (saved env t x) + length (saved_each env t xs)))"
    using Cons.IH[OF rxs, where pre = "pre @ saved env t x"
        and container = "container_insert env x container"] len
    by (simp add: eqs(2))
  show ?case
    by (simp add: eqs(2) l1 l2 add.assoc)
qed

lemma pair_loading_items:
  "serialize_item_loading env fuel (Pair t1 t2) (Items [x, y]) a
   = (case serialize_items_loading env fuel [t1, t2] [x, y] a of
        None \<Rightarrow> None
      | Some (e, items, a') \<Rightarrow> Some (e, Items items, a'))"
  by (simp add: items_of_def split: option.splits prod.splits)

end
